theory Spec2Isabelle
  imports Main "HOL-Library.Sublist"
begin

section \<open>Machine integers of \<open>array2d<Ty, Idx>\<close>\<close>

text \<open>
  The member functions are modelled at the default index type: \<open>index_type = int\<close> (32-bit,
  two's complement) and \<open>size_type = unsigned int\<close> (32-bit, wrapping). Index values are
  HOL integers in the range of \<open>int\<close>; every conversion to \<open>size_type\<close> and every
  \<open>size_type\<close> product or sum is written out modulo \<open>2^32\<close>. \<open>std::size_t\<close> values
  (buffer lengths) are natural numbers.
\<close>

definition INT_MAX :: int where
  "INT_MAX = 2147483647"

definition INT_MIN :: int where
  "INT_MIN = - 2147483648"

definition UINT_MOD :: nat where
  "UINT_MOD = 4294967296"

definition is_index :: "int \<Rightarrow> bool" where
  "is_index x \<longleftrightarrow> INT_MIN \<le> x \<and> x \<le> INT_MAX"

text \<open>\<open>static_cast<size_type>(x)\<close> for an \<open>index_type\<close> value.\<close>

definition to_size_type :: "int \<Rightarrow> nat" where
  "to_size_type x = nat (x mod int UINT_MOD)"

text \<open>\<open>static_cast<index_type>(n)\<close> for an unsigned value.\<close>

definition to_index_type :: "nat \<Rightarrow> int" where
  "to_index_type n =
     (let r = int (n mod UINT_MOD) in if r \<le> INT_MAX then r else r - int UINT_MOD)"

text \<open>
  The size computation and the constructor \<open>array2d(rows, cols)\<close> are modelled for every
  signed index type up to \<open>int\<close>: \<open>Idx\<close> is \<open>signed char\<close>, \<open>short\<close> or \<open>int\<close>, of 8, 16
  and 32 bits, and \<open>size_type = std::make_unsigned_t<Idx>\<close> has the width of \<open>Idx\<close>. An
  operand of an unsigned type narrower than \<open>int\<close> is promoted to \<open>int\<close> before it is
  multiplied, divided or compared, so that for \<open>signed char\<close> and \<open>short\<close> the arithmetic
  on \<open>size_type\<close> values is \<open>int\<close> arithmetic: exact, and undefined when it overflows.
\<close>

datatype index_type = Idx_signed_char | Idx_short | Idx_int

fun idx_bits :: "index_type \<Rightarrow> nat" where
  "idx_bits Idx_signed_char = 8"
| "idx_bits Idx_short = 16"
| "idx_bits Idx_int = 32"

text \<open>The largest value of \<open>Idx\<close>, and the number of values of \<open>size_type\<close>.\<close>

definition idx_max :: "index_type \<Rightarrow> int" where
  "idx_max I = 2 ^ (idx_bits I - 1) - 1"

definition size_mod :: "index_type \<Rightarrow> nat" where
  "size_mod I = 2 ^ idx_bits I"

definition is_index_of :: "index_type \<Rightarrow> int \<Rightarrow> bool" where
  "is_index_of I x \<longleftrightarrow> - idx_max I - 1 \<le> x \<and> x \<le> idx_max I"

text \<open>\<open>static_cast<size_type>(x)\<close> for a value of \<open>Idx\<close>.\<close>

definition size_cast :: "index_type \<Rightarrow> int \<Rightarrow> nat" where
  "size_cast I x = nat (x mod int (size_mod I))"

text \<open>Whether \<open>size_type\<close> operands undergo integral promotion to \<open>int\<close>.\<close>

definition promoted_to_int :: "index_type \<Rightarrow> bool" where
  "promoted_to_int I \<longleftrightarrow> idx_bits I < 32"

section \<open>Errors and outcomes\<close>

datatype error =
    InvalidArgument string
  | Overflow string
  | OutOfRange string
  | BadAlloc
  | ElementThrew

text \<open>
  A member function either returns a value and leaves the object in a state, or raises an
  exception and leaves the object in a state, or has undefined behaviour (an access outside
  the buffer, a signed overflow, an overlapping \<open>memcpy\<close>).
\<close>

datatype ('r, 's) outcome =
    Returned 'r 's
  | Raised error 's
  | Undefined

section \<open>The element type\<close>

text \<open>
  What the code asks of \<open>Ty\<close> at compile time: \<open>sizeof(Ty)\<close>, the type traits it
  branches on, the value of \<open>Ty{}\<close>, and (for the byte-wise reset of trivial types) the
  value whose object representation repeats one byte.
\<close>

record 'a elem_type =
  sizeof :: nat
  trivially_copyable :: bool
  trivially_resettable :: bool
  default_value :: 'a
  byte_pattern :: "int \<Rightarrow> 'a"

datatype Array_reset_opt = All_bits0 | All_bits1 | Safe_max

fun reset_opt_value :: "Array_reset_opt \<Rightarrow> int" where
  "reset_opt_value All_bits0 = 0"
| "reset_opt_value All_bits1 = - 1"
| "reset_opt_value Safe_max = 63"

section \<open>The container\<close>

record 'a array2d =
  m_rows :: int
  m_cols :: int
  m_data :: "'a list"

definition validate_dimension :: "int \<Rightarrow> string \<Rightarrow> error + int" where
  "validate_dimension dim name =
     (if dim < 0 then Inl (InvalidArgument (name @ '' must be non-negative'')) else Inr dim)"

text \<open>
  \<open>calculate_size\<close> declares \<open>const auto size\<close> as the product of the two converted
  operands. At \<open>Idx = int\<close> that is an \<open>unsigned int\<close>, the product modulo \<open>2^32\<close>. At a
  narrower \<open>Idx\<close> both operands are promoted, \<open>size\<close> is an \<open>int\<close> holding the exact
  product (a signed overflow is undefined), the division and the comparison of the overflow
  test are done on \<open>int\<close>, and the value is narrowed to \<open>size_type\<close> only by the \<open>return\<close>.
\<close>

definition calculate_size :: "index_type \<Rightarrow> int \<Rightarrow> int \<Rightarrow> (nat, unit) outcome" where
  "calculate_size I rows cols =
     (let a = size_cast I rows; b = size_cast I cols in
      if promoted_to_int I then
        (if int (a * b) > INT_MAX then Undefined
         else if rows > 0 \<and> cols > 0 \<and> (a * b) div a \<noteq> b
         then Raised (Overflow ''Matrix size calculation overflow'') ()
         else Returned ((a * b) mod size_mod I) ())
      else
        (let sz = (a * b) mod size_mod I in
         if rows > 0 \<and> cols > 0 \<and> sz div a \<noteq> b
         then Raised (Overflow ''Matrix size calculation overflow'') ()
         else Returned sz ()))"

definition calculate_offset :: "'a array2d \<Rightarrow> int \<Rightarrow> int \<Rightarrow> nat" where
  "calculate_offset m row col =
     (to_size_type row * to_size_type (m_cols m) + to_size_type col) mod UINT_MOD"

subsection \<open>\<open>std::vector\<close> operations\<close>

definition vector_resize :: "'a list \<Rightarrow> nat \<Rightarrow> 'a \<Rightarrow> 'a list" where
  "vector_resize xs n v = take n xs @ replicate (n - length xs) v"

definition vec_at :: "'a list \<Rightarrow> nat \<Rightarrow> 'a option" where
  "vec_at xs i = (if i < length xs then Some (xs ! i) else None)"

subsection \<open>What can fail outside the code's own checks\<close>

text \<open>
  The allocator, which grants at most \<open>max_alloc\<close> elements, and the constructors and
  assignments of \<open>Ty\<close>, of which \<open>elem_budget\<close> succeed before the next one throws (the
  throwing test type counts its constructions in the same way). \<open>std::memcpy\<close> never throws.
\<close>

record faults =
  max_alloc :: nat
  elem_budget :: nat

subsection \<open>Constructors\<close>

text \<open>
  A constructor returns the new object, or throws and leaves no object, or has undefined
  behaviour. \<open>array2d(rows, cols)\<close> takes its index type as a parameter; the other
  constructors are those of \<open>array2d<Ty, int>\<close>. \<open>data_.resize(size)\<close> allocates \<open>size\<close>
  elements and value-initialises each of them.
\<close>

definition array2d_default :: "'a array2d" where
  "array2d_default = \<lparr>m_rows = 0, m_cols = 0, m_data = []\<rparr>"

definition array2d_dims ::
  "index_type \<Rightarrow> 'a elem_type \<Rightarrow> faults \<Rightarrow> int \<Rightarrow> int \<Rightarrow> ('a array2d, unit) outcome" where
  "array2d_dims I T env rows cols =
     (case validate_dimension rows ''rows'' of
        Inl e \<Rightarrow> Raised e ()
      | Inr r \<Rightarrow>
          (case validate_dimension cols ''cols'' of
             Inl e \<Rightarrow> Raised e ()
           | Inr c \<Rightarrow>
               if r > 0 \<and> c > 0 then
                 (case calculate_size I r c of
                    Raised e u \<Rightarrow> Raised e ()
                  | Undefined \<Rightarrow> Undefined
                  | Returned sz u \<Rightarrow>
                      if sz > max_alloc env then Raised BadAlloc ()
                      else if elem_budget env < sz then Raised ElementThrew ()
                      else Returned \<lparr>m_rows = r, m_cols = c,
                                     m_data = vector_resize [] sz (default_value T)\<rparr> ())
               else Returned \<lparr>m_rows = r, m_cols = c, m_data = []\<rparr> ()))"

definition array2d_value ::
  "faults \<Rightarrow> int \<Rightarrow> int \<Rightarrow> 'a \<Rightarrow> ('a array2d, unit) outcome" where
  "array2d_value env rows cols val =
     (case validate_dimension rows ''rows'' of
        Inl e \<Rightarrow> Raised e ()
      | Inr r \<Rightarrow>
          (case validate_dimension cols ''cols'' of
             Inl e \<Rightarrow> Raised e ()
           | Inr c \<Rightarrow>
               if r > 0 \<and> c > 0 then
                 (case calculate_size Idx_int r c of
                    Raised e u \<Rightarrow> Raised e ()
                  | Undefined \<Rightarrow> Undefined
                  | Returned sz u \<Rightarrow>
                      if sz > max_alloc env then Raised BadAlloc ()
                      else if elem_budget env < sz then Raised ElementThrew ()
                      else Returned \<lparr>m_rows = r, m_cols = c,
                                     m_data = vector_resize [] sz val\<rparr> ())
               else Returned \<lparr>m_rows = r, m_cols = c, m_data = []\<rparr> ()))"

text \<open>
  The initializer-list constructor reserves \<open>size\<close> elements and appends the rows one after
  the other; the flat-source constructor reserves and appends the source. Each appended
  element is copy-constructed. The rows fit the reserved room whenever the lengths of the
  list are values of \<open>int\<close>; when they are not, the conversions wrap and the appends
  outgrow it, and the model lets the vector grow to exactly its final length.
\<close>

definition array2d_init :: "faults \<Rightarrow> 'a list list \<Rightarrow> ('a array2d, unit) outcome" where
  "array2d_init env init_list =
     (if length init_list = 0 then Returned \<lparr>m_rows = 0, m_cols = 0, m_data = []\<rparr> ()
      else
        let rows = to_index_type (length init_list);
            cols = to_index_type (length (hd init_list))
        in if list_ex (\<lambda>row. to_index_type (length row) \<noteq> cols) init_list
           then Raised (InvalidArgument ''All rows must have the same number of columns'') ()
           else (case calculate_size Idx_int rows cols of
                   Raised e u \<Rightarrow> Raised e ()
                 | Undefined \<Rightarrow> Undefined
                 | Returned sz u \<Rightarrow>
                     if sz > max_alloc env \<or> length (concat init_list) > max_alloc env
                     then Raised BadAlloc ()
                     else if elem_budget env < length (concat init_list)
                     then Raised ElementThrew ()
                     else Returned \<lparr>m_rows = rows, m_cols = cols,
                                    m_data = concat init_list\<rparr> ()))"

definition array2d_container ::
  "faults \<Rightarrow> int \<Rightarrow> int \<Rightarrow> 'a list \<Rightarrow> ('a array2d, unit) outcome" where
  "array2d_container env rows cols container =
     (case validate_dimension rows ''rows'' of
        Inl e \<Rightarrow> Raised e ()
      | Inr r \<Rightarrow>
          (case validate_dimension cols ''cols'' of
             Inl e \<Rightarrow> Raised e ()
           | Inr c \<Rightarrow>
               (case calculate_size Idx_int r c of
                  Raised e u \<Rightarrow> Raised e ()
                | Undefined \<Rightarrow> Undefined
                | Returned expected_size u \<Rightarrow>
                    if length container \<noteq> expected_size
                    then Raised (InvalidArgument
                                   ''Container size doesn't match matrix dimensions'') ()
                    else if expected_size > max_alloc env then Raised BadAlloc ()
                    else if elem_budget env < length container then Raised ElementThrew ()
                    else Returned \<lparr>m_rows = r, m_cols = c, m_data = container\<rparr> ())))"

text \<open>
  The defaulted copy and move members act member by member, in the order of declaration:
  \<open>rows_\<close>, \<open>cols_\<close>, \<open>data_\<close>.

  The copy constructor copies the two integers and copy-constructs the \<open>std::vector\<close>,
  which allocates and copies the elements; when that throws there is no new object. It
  returns the copy and leaves the source as it is.

  The copy assignment has assigned \<open>rows_\<close> and \<open>cols_\<close> when it assigns the
  \<open>std::vector\<close>. That assignment allocates when the source holds more elements than the
  target has room for, and it copies the elements. The state of the container does not
  show the room its buffer has: it is the parameter \<open>cap\<close>, the capacity of the target's
  buffer, at least its size. When the assignment throws, \<open>std::vector\<close> promises only a
  valid buffer: what it is left with is the parameter \<open>leftover\<close> (with libstdc++ the old
  elements, when the allocation fails). \<open>other\<close> is another object than \<open>this\<close>.

  A move hands the three members to the target; the two integers of the source are merely
  copied, and the source's \<open>std::vector\<close> is left empty. The move functions and \<open>swap\<close> are
  \<open>noexcept\<close>; each returns the target and the source as they are after the call.
\<close>

definition copy_construct :: "faults \<Rightarrow> 'a array2d \<Rightarrow> ('a array2d, 'a array2d) outcome" where
  "copy_construct env other =
     (if length (m_data other) > max_alloc env then Raised BadAlloc other
      else if elem_budget env < length (m_data other) then Raised ElementThrew other
      else Returned other other)"

definition move_construct :: "'a array2d \<Rightarrow> 'a array2d \<times> 'a array2d" where
  "move_construct other = (other, other\<lparr>m_data := []\<rparr>)"

definition copy_assign ::
  "faults \<Rightarrow> nat \<Rightarrow> 'a list \<Rightarrow> 'a array2d \<Rightarrow> 'a array2d \<Rightarrow> (unit, 'a array2d) outcome" where
  "copy_assign env cap leftover other this =
     (let this1 = this\<lparr>m_rows := m_rows other, m_cols := m_cols other\<rparr> in
      if cap < length (m_data other) \<and> length (m_data other) > max_alloc env
      then Raised BadAlloc (this1\<lparr>m_data := leftover\<rparr>)
      else if elem_budget env < length (m_data other)
      then Raised ElementThrew (this1\<lparr>m_data := leftover\<rparr>)
      else Returned () (this1\<lparr>m_data := m_data other\<rparr>))"

definition move_assign :: "'a array2d \<Rightarrow> 'a array2d \<Rightarrow> 'a array2d \<times> 'a array2d" where
  "move_assign this other = (other, other\<lparr>m_data := []\<rparr>)"

definition swap_arr :: "'a array2d \<Rightarrow> 'a array2d \<Rightarrow> 'a array2d \<times> 'a array2d" where
  "swap_arr this other = (other, this)"

subsection \<open>Queries\<close>

definition rows :: "'a array2d \<Rightarrow> int" where
  "rows m = m_rows m"

definition cols :: "'a array2d \<Rightarrow> int" where
  "cols m = m_cols m"

text \<open>\<open>size()\<close> returns \<open>data_.size()\<close> narrowed to \<open>size_type\<close>.\<close>

definition size_arr :: "'a array2d \<Rightarrow> nat" where
  "size_arr m = length (m_data m) mod UINT_MOD"

definition empty_arr :: "'a array2d \<Rightarrow> bool" where
  "empty_arr m \<longleftrightarrow> m_data m = []"

definition is_square :: "'a array2d \<Rightarrow> bool" where
  "is_square m \<longleftrightarrow> m_rows m = m_cols m"

text \<open>
  The state every public operation is meant to keep: both extents non-negative values of
  \<open>index_type\<close>, and the buffer holding exactly \<open>rows * cols\<close> elements, a count that fits
  \<open>size_type\<close>.
\<close>

definition wf :: "'a array2d \<Rightarrow> bool" where
  "wf m \<longleftrightarrow>
     0 \<le> m_rows m \<and> m_rows m \<le> INT_MAX \<and> 0 \<le> m_cols m \<and> m_cols m \<le> INT_MAX \<and>
     int (length (m_data m)) = m_rows m * m_cols m \<and>
     length (m_data m) < UINT_MOD"

text \<open>The element stored for position \<open>(x, y)\<close>: the one at row-major offset \<open>x * cols + y\<close>.\<close>

definition cell :: "'a array2d \<Rightarrow> int \<Rightarrow> int \<Rightarrow> 'a" where
  "cell m x y = m_data m ! nat (x * m_cols m + y)"

text \<open>
  The states the in-place transpose of a square container \<open>orig\<close> passes through: the
  symmetric pairs of positions in \<open>D\<close> (each given as \<open>(x, y)\<close> with \<open>x < y\<close>) have been
  exchanged, every other position holds what it held in \<open>orig\<close>.
\<close>

definition swapped_state :: "'a array2d \<Rightarrow> (int \<times> int) set \<Rightarrow> 'a array2d \<Rightarrow> bool" where
  "swapped_state orig D cur \<longleftrightarrow>
     wf cur \<and> m_rows cur = m_rows orig \<and> m_cols cur = m_rows orig \<and>
     (\<forall>x y. 0 \<le> x \<and> x < m_rows orig \<and> 0 \<le> y \<and> y < m_rows orig \<longrightarrow>
        cell cur x y = (if (min x y, max x y) \<in> D then cell orig y x else cell orig x y))"

text \<open>Two states with the same extents and the same number of stored elements.\<close>

definition same_shape :: "'a array2d \<Rightarrow> 'a array2d \<Rightarrow> bool" where
  "same_shape a b \<longleftrightarrow>
     m_rows a = m_rows b \<and> m_cols a = m_cols b \<and> length (m_data a) = length (m_data b)"

subsection \<open>Element access\<close>

text \<open>
  Pointers into the buffer and iterators are positions relative to \<open>data_.data()\<close>.
  \<open>operator[]\<close> returns the row pointer; indexing that pointer is pointer arithmetic, which
  does not wrap. Reading outside the buffer is undefined behaviour: \<open>None\<close>.
\<close>

definition op_call :: "'a array2d \<Rightarrow> int \<Rightarrow> int \<Rightarrow> 'a option" where
  "op_call m row col = vec_at (m_data m) (calculate_offset m row col)"

definition op_index :: "'a array2d \<Rightarrow> int \<Rightarrow> nat" where
  "op_index m row = calculate_offset m row 0"

definition ptr_read :: "'a array2d \<Rightarrow> nat \<Rightarrow> int \<Rightarrow> 'a option" where
  "ptr_read m p k =
     (let pos = int p + k in
      if 0 \<le> pos \<and> pos < int (length (m_data m)) then Some (m_data m ! nat pos) else None)"

definition ptr_write :: "'a array2d \<Rightarrow> nat \<Rightarrow> int \<Rightarrow> 'a \<Rightarrow> 'a array2d option" where
  "ptr_write m p k v =
     (let pos = int p + k in
      if 0 \<le> pos \<and> pos < int (length (m_data m))
      then Some (m\<lparr>m_data := (m_data m)[nat pos := v]\<rparr>) else None)"

datatype Array2d_iterator = Array2d_iterator (ptr: int)

definition begin_arr :: "'a array2d \<Rightarrow> Array2d_iterator" where
  "begin_arr m = Array2d_iterator 0"

definition end_arr :: "'a array2d \<Rightarrow> Array2d_iterator" where
  "end_arr m = Array2d_iterator (int (length (m_data m)))"

definition iter_plus :: "Array2d_iterator \<Rightarrow> int \<Rightarrow> Array2d_iterator" where
  "iter_plus it offset = Array2d_iterator (ptr it + offset)"

definition iter_deref :: "'a array2d \<Rightarrow> Array2d_iterator \<Rightarrow> 'a option" where
  "iter_deref m it =
     (if 0 \<le> ptr it \<and> ptr it < int (length (m_data m))
      then Some (m_data m ! nat (ptr it)) else None)"

subsection \<open>Checked access\<close>

definition digit_char :: "nat \<Rightarrow> char" where
  "digit_char d = ''0123456789'' ! d"

fun to_string_nat :: "nat \<Rightarrow> string" where
  "to_string_nat n =
     (if n < 10 then [digit_char n] else to_string_nat (n div 10) @ [digit_char (n mod 10)])"

declare to_string_nat.simps [simp del]

definition to_string :: "int \<Rightarrow> string" where
  "to_string i = (if i < 0 then CHR ''-'' # to_string_nat (nat (- i)) else to_string_nat (nat i))"

definition format_bounds_error :: "'a array2d \<Rightarrow> int \<Rightarrow> int \<Rightarrow> string" where
  "format_bounds_error m row col =
     ''array2d: index ('' @ to_string row @ '', '' @ to_string col @
     '') out of range [0, '' @ to_string (m_rows m) @ '') x [0, '' @
     to_string (m_cols m) @ '')''"

definition at_impl :: "'a array2d \<Rightarrow> int \<Rightarrow> int \<Rightarrow> ('a, 'a array2d) outcome" where
  "at_impl m row col =
     (if row < 0 \<or> row \<ge> m_rows m \<or> col < 0 \<or> col \<ge> m_cols m
      then Raised (OutOfRange (format_bounds_error m row col)) m
      else (case vec_at (m_data m) (calculate_offset m row col) of
              None \<Rightarrow> Undefined
            | Some x \<Rightarrow> Returned x m))"

definition at :: "'a array2d \<Rightarrow> int \<Rightarrow> int \<Rightarrow> ('a, 'a array2d) outcome" where
  "at m row col = at_impl m row col"

subsection \<open>Bulk mutation\<close>

text \<open>\<open>std::fill(first, last, val)\<close> on a buffer, the iterators given as positions
  (\<open>lim\<close> is \<open>last\<close>).\<close>

function std_fill :: "'a list \<Rightarrow> nat \<Rightarrow> nat \<Rightarrow> 'a \<Rightarrow> 'a list" where
  "std_fill xs first lim val =
     (if first < lim then std_fill (xs[first := val]) (Suc first) lim val else xs)"
  by pat_completeness auto
termination
  by (relation "measure (\<lambda>(xs, first, lim, val). lim - first)") auto

declare std_fill.simps [simp del]

text \<open>
  \<open>std::memset\<close> over the first \<open>n\<close> elements of a buffer of one-byte elements, with the
  byte of \<open>val\<close>: each of those elements becomes \<open>val\<close>.
\<close>

definition memset_elems :: "'a list \<Rightarrow> 'a \<Rightarrow> nat \<Rightarrow> 'a list" where
  "memset_elems xs val n = replicate n val @ drop n xs"

definition fill :: "'a elem_type \<Rightarrow> 'a \<Rightarrow> 'a array2d \<Rightarrow> 'a array2d" where
  "fill T val m =
     (if trivially_copyable T \<and> sizeof T = 1
      then m\<lparr>m_data := memset_elems (m_data m) val (length (m_data m))\<rparr>
      else m\<lparr>m_data := std_fill (m_data m) 0 (length (m_data m)) val\<rparr>)"

text \<open>
  \<open>std::fill\<close> under \<open>std::execution::par_unseq\<close> assigns every element once, in no
  defined order. The order taken by one execution is the parameter \<open>sched\<close>, a list of
  positions; the assignments are applied in that order.
\<close>

definition par_fill :: "nat list \<Rightarrow> 'a list \<Rightarrow> 'a \<Rightarrow> 'a list" where
  "par_fill sched xs val = fold (\<lambda>i ys. ys[i := val]) sched xs"

definition fill_parallel :: "'a elem_type \<Rightarrow> nat list \<Rightarrow> 'a \<Rightarrow> 'a array2d \<Rightarrow> 'a array2d" where
  "fill_parallel T sched val m =
     (if length (m_data m) > 10000
      then m\<lparr>m_data := par_fill sched (m_data m) val\<rparr>
      else fill T val m)"

definition reset :: "'a elem_type \<Rightarrow> Array_reset_opt \<Rightarrow> 'a array2d \<Rightarrow> 'a array2d" where
  "reset T opt m =
     (if m_data m = [] then m
      else if trivially_resettable T then
        (if opt = All_bits0
         then m\<lparr>m_data := memset_elems (m_data m) (byte_pattern T 0) (length (m_data m))\<rparr>
         else m\<lparr>m_data := memset_elems (m_data m) (byte_pattern T (reset_opt_value opt))
                              (length (m_data m))\<rparr>)
      else m\<lparr>m_data := std_fill (m_data m) 0 (length (m_data m)) (default_value T)\<rparr>)"

subsection \<open>Row operations\<close>

text \<open>
  \<open>std::copy_n(src + first, n, dst + result)\<close>, element by element in increasing order.
  \<open>copy_n_within\<close> is the case where both pointers go into one buffer, so that a store is
  seen by the later loads.
\<close>

fun copy_n :: "'a list \<Rightarrow> nat \<Rightarrow> nat \<Rightarrow> 'a list \<Rightarrow> nat \<Rightarrow> 'a list" where
  "copy_n src first 0 dst result = dst"
| "copy_n src first (Suc n) dst result =
     copy_n src (Suc first) n (dst[result := src ! first]) (Suc result)"

fun copy_n_within :: "'a list \<Rightarrow> nat \<Rightarrow> nat \<Rightarrow> nat \<Rightarrow> 'a list" where
  "copy_n_within xs first 0 result = xs"
| "copy_n_within xs first (Suc n) result =
     copy_n_within (xs[result := xs ! first]) (Suc first) n (Suc result)"

text \<open>\<open>std::memcpy\<close> inside one buffer: undefined when the two ranges overlap.\<close>

definition memcpy_within :: "'a list \<Rightarrow> nat \<Rightarrow> nat \<Rightarrow> nat \<Rightarrow> 'a list option" where
  "memcpy_within xs dest src n =
     (if n > 0 \<and> dest < src + n \<and> src < dest + n then None
      else Some (copy_n_within xs src n dest))"

definition copy_row ::
  "'a elem_type \<Rightarrow> int \<Rightarrow> int \<Rightarrow> 'a array2d \<Rightarrow> (unit, 'a array2d) outcome" where
  "copy_row T src_row dest_row m =
     (if src_row = dest_row then Returned () m
      else
        let src_offset = calculate_offset m src_row 0;
            dest_offset = calculate_offset m dest_row 0;
            copy_size = to_size_type (m_cols m)
        in if src_offset + copy_size > length (m_data m) \<or>
              dest_offset + copy_size > length (m_data m) then Undefined
           else if trivially_copyable T then
             (case memcpy_within (m_data m) dest_offset src_offset copy_size of
                None \<Rightarrow> Undefined
              | Some xs \<Rightarrow> Returned () (m\<lparr>m_data := xs\<rparr>))
           else Returned ()
                  (m\<lparr>m_data := copy_n_within (m_data m) src_offset copy_size dest_offset\<rparr>))"

function swap_rows_loop ::
  "'a list \<Rightarrow> nat \<Rightarrow> nat \<Rightarrow> nat \<Rightarrow> nat \<Rightarrow> 'a list option" where
  "swap_rows_loop xs offset1 offset2 swap_size i =
     (if i < swap_size then
        (let a = (offset1 + i) mod UINT_MOD; b = (offset2 + i) mod UINT_MOD in
         if a < length xs \<and> b < length xs
         then swap_rows_loop (xs[a := xs ! b, b := xs ! a]) offset1 offset2 swap_size (Suc i)
         else None)
      else Some xs)"
  by pat_completeness auto
termination
  by (relation "measure (\<lambda>(xs, offset1, offset2, swap_size, i). swap_size - i)") auto

declare swap_rows_loop.simps [simp del]

definition swap_rows :: "int \<Rightarrow> int \<Rightarrow> 'a array2d \<Rightarrow> (unit, 'a array2d) outcome" where
  "swap_rows row1 row2 m =
     (if row1 = row2 then Returned () m
      else
        (case swap_rows_loop (m_data m) (calculate_offset m row1 0) (calculate_offset m row2 0)
                (to_size_type (m_cols m)) 0 of
           None \<Rightarrow> Undefined
         | Some xs \<Rightarrow> Returned () (m\<lparr>m_data := xs\<rparr>)))"

definition fill_row :: "int \<Rightarrow> 'a \<Rightarrow> 'a array2d \<Rightarrow> (unit, 'a array2d) outcome" where
  "fill_row row val m =
     (let offset = calculate_offset m row 0 in
      if m_cols m \<le> 0 then Returned () m
      else if offset + nat (m_cols m) > length (m_data m) then Undefined
      else Returned ()
             (m\<lparr>m_data := std_fill (m_data m) offset (offset + nat (m_cols m)) val\<rparr>))"

subsection \<open>Resize\<close>

function resize_copy_rows ::
  "'a elem_type \<Rightarrow> 'a array2d \<Rightarrow> int \<Rightarrow> int \<Rightarrow> int \<Rightarrow> int \<Rightarrow> 'a list \<Rightarrow> nat \<Rightarrow>
     (unit, 'a list) outcome" where
  "resize_copy_rows T m new_cols copy_rows copy_cols i new_data budget =
     (if i < copy_rows then
        (let old_offset = (to_size_type i * to_size_type (m_cols m)) mod UINT_MOD;
             new_offset = (to_size_type i * to_size_type new_cols) mod UINT_MOD;
             n = to_size_type copy_cols
         in if old_offset + n > length (m_data m) \<or> new_offset + n > length new_data
            then Undefined
            else if trivially_copyable T then
              resize_copy_rows T m new_cols copy_rows copy_cols (i + 1)
                (copy_n (m_data m) old_offset n new_data new_offset) budget
            else if budget < n then Raised ElementThrew new_data
            else
              resize_copy_rows T m new_cols copy_rows copy_cols (i + 1)
                (copy_n (m_data m) old_offset n new_data new_offset) (budget - n))
      else Returned () new_data)"
  by pat_completeness auto
termination
  by (relation "measure (\<lambda>(T, m, new_cols, copy_rows, copy_cols, i, new_data, budget).
                  nat (copy_rows - i))") auto

declare resize_copy_rows.simps [simp del]

definition resize_impl ::
  "'a elem_type \<Rightarrow> faults \<Rightarrow> int \<Rightarrow> int \<Rightarrow> 'a option \<Rightarrow> 'a array2d \<Rightarrow>
     (unit, 'a array2d) outcome" where
  "resize_impl T env new_rows new_cols fill_value m =
     (case validate_dimension new_rows ''new_rows'' of
        Inl e \<Rightarrow> Raised e m
      | Inr new_rows \<Rightarrow>
     (case validate_dimension new_cols ''new_cols'' of
        Inl e \<Rightarrow> Raised e m
      | Inr new_cols \<Rightarrow>
     if new_rows = m_rows m \<and> new_cols = m_cols m then Returned () m
     else
     (case calculate_size Idx_int new_rows new_cols of
        Raised e u \<Rightarrow> Raised e m
      | Undefined \<Rightarrow> Undefined
      | Returned new_size u \<Rightarrow>
     if new_size = 0
     then Returned () \<lparr>m_rows = new_rows, m_cols = new_cols, m_data = []\<rparr>
     else if new_size > max_alloc env then Raised BadAlloc m
     else if elem_budget env < new_size then Raised ElementThrew m
     else
       let new_data = (case fill_value of
                         Some v \<Rightarrow> replicate new_size v
                       | None \<Rightarrow> vector_resize [] new_size (default_value T));
           budget = elem_budget env - new_size
       in if m_rows m > 0 \<and> m_cols m > 0 then
            (case resize_copy_rows T m new_cols (min (m_rows m) new_rows)
                    (min (m_cols m) new_cols) 0 new_data budget of
               Returned u new_data' \<Rightarrow>
                 Returned () \<lparr>m_rows = new_rows, m_cols = new_cols, m_data = new_data'\<rparr>
             | Raised e new_data' \<Rightarrow> Raised e m
             | Undefined \<Rightarrow> Undefined)
          else Returned () \<lparr>m_rows = new_rows, m_cols = new_cols, m_data = new_data\<rparr>)))"

definition resize ::
  "'a elem_type \<Rightarrow> faults \<Rightarrow> int \<Rightarrow> int \<Rightarrow> 'a array2d \<Rightarrow> (unit, 'a array2d) outcome" where
  "resize T env new_rows new_cols m = resize_impl T env new_rows new_cols None m"

definition resize_value ::
  "'a elem_type \<Rightarrow> faults \<Rightarrow> int \<Rightarrow> int \<Rightarrow> 'a \<Rightarrow> 'a array2d \<Rightarrow> (unit, 'a array2d) outcome" where
  "resize_value T env new_rows new_cols val m =
     resize_impl T env new_rows new_cols (Some val) m"

subsection \<open>Transpose\<close>

text \<open>
  \<open>block_size = 64 / sizeof(Ty)\<close>, a \<open>size_type\<close> constant. The two block loops advance
  by it (\<open>i += block_size\<close>, computed in \<open>size_type\<close> and stored back into the \<open>int\<close>),
  so they are the loops that may run forever: they are partial functions, and \<open>None\<close> is
  "does not return". \<open>i + static_cast<index_type>(block_size)\<close> is an \<open>int\<close> sum, undefined
  when it overflows. The two inner loops count up by one and always end.
\<close>

definition block_size :: "'a elem_type \<Rightarrow> nat" where
  "block_size T = (64 div sizeof T) mod UINT_MOD"

definition index_plus_size :: "int \<Rightarrow> nat \<Rightarrow> int" where
  "index_plus_size i n = to_index_type ((to_size_type i + n) mod UINT_MOD)"

function transposed_bj ::
  "'a array2d \<Rightarrow> int \<Rightarrow> int \<Rightarrow> int \<Rightarrow> 'a array2d \<Rightarrow> (unit, 'a array2d) outcome" where
  "transposed_bj this bi j_end bj result =
     (if bj < j_end then
        (case ptr_read this (op_index this bi) bj of
           None \<Rightarrow> Undefined
         | Some v \<Rightarrow>
             (case ptr_write result (op_index result bj) bi v of
                None \<Rightarrow> Undefined
              | Some result' \<Rightarrow> transposed_bj this bi j_end (bj + 1) result'))
      else Returned () result)"
  by pat_completeness auto
termination
  by (relation "measure (\<lambda>(this, bi, j_end, bj, result). nat (j_end - bj))") auto

declare transposed_bj.simps [simp del]

function transposed_bi ::
  "'a array2d \<Rightarrow> int \<Rightarrow> int \<Rightarrow> int \<Rightarrow> int \<Rightarrow> 'a array2d \<Rightarrow> (unit, 'a array2d) outcome" where
  "transposed_bi this i_end j j_end bi result =
     (if bi < i_end then
        (case transposed_bj this bi j_end j result of
           Returned u result' \<Rightarrow> transposed_bi this i_end j j_end (bi + 1) result'
         | Raised e s \<Rightarrow> Raised e s
         | Undefined \<Rightarrow> Undefined)
      else Returned () result)"
  by pat_completeness auto
termination
  by (relation "measure (\<lambda>(this, i_end, j, j_end, bi, result). nat (i_end - bi))") auto

declare transposed_bi.simps [simp del]

partial_function (option) transposed_j ::
  "nat \<Rightarrow> 'a array2d \<Rightarrow> int \<Rightarrow> int \<Rightarrow> int \<Rightarrow> 'a array2d \<Rightarrow> (unit, 'a array2d) outcome option" where
  "transposed_j bs this i i_end j result =
     (if j < m_cols this then
        (if j + to_index_type bs > INT_MAX then Some Undefined
         else
           (case transposed_bi this i_end j (min (j + to_index_type bs) (m_cols this)) i result of
              Returned u result' \<Rightarrow>
                transposed_j bs this i i_end (index_plus_size j bs) result'
            | Raised e s \<Rightarrow> Some (Raised e s)
            | Undefined \<Rightarrow> Some Undefined))
      else Some (Returned () result))"

partial_function (option) transposed_i ::
  "nat \<Rightarrow> 'a array2d \<Rightarrow> int \<Rightarrow> 'a array2d \<Rightarrow> (unit, 'a array2d) outcome option" where
  "transposed_i bs this i result =
     (if i < m_rows this then
        (if i + to_index_type bs > INT_MAX then Some Undefined
         else
           (case transposed_j bs this i (min (i + to_index_type bs) (m_rows this)) 0 result of
              None \<Rightarrow> None
            | Some (Returned u result') \<Rightarrow> transposed_i bs this (index_plus_size i bs) result'
            | Some (Raised e s) \<Rightarrow> Some (Raised e s)
            | Some Undefined \<Rightarrow> Some Undefined))
      else Some (Returned () result))"

definition transposed ::
  "'a elem_type \<Rightarrow> faults \<Rightarrow> 'a array2d \<Rightarrow> ('a array2d, 'a array2d) outcome option" where
  "transposed T env this =
     (case array2d_dims Idx_int T env (m_cols this) (m_rows this) of
        Raised e u \<Rightarrow> Some (Raised e this)
      | Undefined \<Rightarrow> Some Undefined
      | Returned result u \<Rightarrow>
          (case transposed_i (block_size T) this 0 result of
             None \<Rightarrow> None
           | Some (Returned u result') \<Rightarrow> Some (Returned result' this)
           | Some (Raised e s) \<Rightarrow> Some (Raised e this)
           | Some Undefined \<Rightarrow> Some Undefined))"

text \<open>\<open>swap((*this)[bi][bj], (*this)[bj][bi])\<close>.\<close>

definition swap_elems :: "'a array2d \<Rightarrow> int \<Rightarrow> int \<Rightarrow> 'a array2d option" where
  "swap_elems this bi bj =
     (case ptr_read this (op_index this bi) bj of
        None \<Rightarrow> None
      | Some a \<Rightarrow>
          (case ptr_read this (op_index this bj) bi of
             None \<Rightarrow> None
           | Some b \<Rightarrow>
               (case ptr_write this (op_index this bi) bj b of
                  None \<Rightarrow> None
                | Some this' \<Rightarrow> ptr_write this' (op_index this' bj) bi a)))"

function transpose_bj ::
  "int \<Rightarrow> int \<Rightarrow> int \<Rightarrow> 'a array2d \<Rightarrow> (unit, 'a array2d) outcome" where
  "transpose_bj bi j_end bj this =
     (if bj < j_end then
        (case swap_elems this bi bj of
           None \<Rightarrow> Undefined
         | Some this' \<Rightarrow> transpose_bj bi j_end (bj + 1) this')
      else Returned () this)"
  by pat_completeness auto
termination
  by (relation "measure (\<lambda>(bi, j_end, bj, this). nat (j_end - bj))") auto

declare transpose_bj.simps [simp del]

function transpose_bi ::
  "int \<Rightarrow> int \<Rightarrow> int \<Rightarrow> int \<Rightarrow> int \<Rightarrow> 'a array2d \<Rightarrow> (unit, 'a array2d) outcome" where
  "transpose_bi i i_end j j_end bi this =
     (if bi < i_end then
        (case transpose_bj bi j_end (if i = j then bi + 1 else j) this of
           Returned u this' \<Rightarrow> transpose_bi i i_end j j_end (bi + 1) this'
         | Raised e s \<Rightarrow> Raised e s
         | Undefined \<Rightarrow> Undefined)
      else Returned () this)"
  by pat_completeness auto
termination
  by (relation "measure (\<lambda>(i, i_end, j, j_end, bi, this). nat (i_end - bi))") auto

declare transpose_bi.simps [simp del]

partial_function (option) transpose_j ::
  "nat \<Rightarrow> int \<Rightarrow> int \<Rightarrow> int \<Rightarrow> 'a array2d \<Rightarrow> (unit, 'a array2d) outcome option" where
  "transpose_j bs i i_end j this =
     (if j < m_cols this then
        (if j + to_index_type bs > INT_MAX then Some Undefined
         else
           (case transpose_bi i i_end j (min (j + to_index_type bs) (m_cols this)) i this of
              Returned u this' \<Rightarrow> transpose_j bs i i_end (index_plus_size j bs) this'
            | Raised e s \<Rightarrow> Some (Raised e s)
            | Undefined \<Rightarrow> Some Undefined))
      else Some (Returned () this))"

partial_function (option) transpose_i ::
  "nat \<Rightarrow> int \<Rightarrow> 'a array2d \<Rightarrow> (unit, 'a array2d) outcome option" where
  "transpose_i bs i this =
     (if i < m_rows this then
        (if i + to_index_type bs > INT_MAX then Some Undefined
         else
           (case transpose_j bs i (min (i + to_index_type bs) (m_rows this)) i this of
              None \<Rightarrow> None
            | Some (Returned u this') \<Rightarrow> transpose_i bs (index_plus_size i bs) this'
            | Some (Raised e s) \<Rightarrow> Some (Raised e s)
            | Some Undefined \<Rightarrow> Some Undefined))
      else Some (Returned () this))"

definition transpose :: "'a elem_type \<Rightarrow> 'a array2d \<Rightarrow> (unit, 'a array2d) outcome option" where
  "transpose T this =
     (if \<not> is_square this
      then Some (Raised (InvalidArgument
                           ''transpose: matrix must be square for in-place transpose'') this)
      else transpose_i (block_size T) 0 this)"

subsection \<open>A concrete element type\<close>

text \<open>
  \<open>Ty = int\<close>: four bytes, trivial; the value whose four bytes all equal \<open>b\<close> is
  \<open>b * 0x01010101\<close> read as a signed 32-bit integer. \<open>big_elem\<close> stands for an element type
  of 72 bytes (such as \<open>std::array<double, 9>\<close>), whose values are kept abstract as integers.
\<close>

definition int_elem :: "int elem_type" where
  "int_elem = \<lparr>sizeof = 4, trivially_copyable = True, trivially_resettable = True,
               default_value = 0,
               byte_pattern = (\<lambda>b. to_index_type (nat (b mod 256) * 16843009))\<rparr>"

definition big_elem :: "int elem_type" where
  "big_elem = \<lparr>sizeof = 72, trivially_copyable = True, trivially_resettable = True,
               default_value = 0,
               byte_pattern = (\<lambda>b. 0)\<rparr>"

definition no_faults :: faults where
  "no_faults = \<lparr>max_alloc = UINT_MOD, elem_budget = 2 * UINT_MOD\<rparr>"

text \<open>The container built from \<open>{{1, 2, 3}, {4, 5, 6}}\<close>.\<close>

definition example_2x3 :: "int array2d" where
  "example_2x3 = \<lparr>m_rows = 2, m_cols = 3, m_data = [1, 2, 3, 4, 5, 6]\<rparr>"

text \<open>A container above the threshold of \<open>fill_parallel\<close>: 101 rows of 100 sevens.\<close>

definition example_large :: "int array2d" where
  "example_large = \<lparr>m_rows = 101, m_cols = 100, m_data = replicate 10100 7\<rparr>"

text \<open>
  An element type whose copy is not trivial and may throw, as the throwing type of the test
  suite; its values are kept abstract as integers.
\<close>

definition throwing_elem :: "int elem_type" where
  "throwing_elem = \<lparr>sizeof = 1, trivially_copyable = False, trivially_resettable = False,
                    default_value = 0, byte_pattern = (\<lambda>b. 0)\<rparr>"

section \<open>Properties\<close>

subsection \<open>Size arithmetic and construction\<close>

lemma to_size_type_nat: "0 \<le> x \<Longrightarrow> x \<le> INT_MAX \<Longrightarrow> to_size_type x = nat x"
  by (simp add: to_size_type_def INT_MAX_def UINT_MOD_def)

lemma mod_mult_div_overflow:
  fixes a b M :: nat
  assumes "0 < a" "0 < M" "M \<le> a * b"
  shows "((a * b) mod M) div a \<noteq> b"
proof
  assume h: "((a * b) mod M) div a = b"
  have "((a * b) mod M) div a * a \<le> (a * b) mod M" by simp
  with h have "b * a \<le> (a * b) mod M" by simp
  moreover have "(a * b) mod M < M" using assms by simp
  ultimately show False using assms by (simp add: mult.commute)
qed

lemma size_mod_int: "size_mod Idx_int = UINT_MOD"
  by (simp add: size_mod_def UINT_MOD_def)

lemma size_cast_int: "size_cast Idx_int x = to_size_type x"
  by (simp add: size_cast_def to_size_type_def size_mod_int)

text \<open>At \<open>Idx = int\<close> nothing is promoted: the product and the test are taken modulo \<open>2^32\<close>.\<close>

lemma calculate_size_int:
  "calculate_size Idx_int r c =
     (let sz = (to_size_type r * to_size_type c) mod UINT_MOD in
      if r > 0 \<and> c > 0 \<and> sz div to_size_type r \<noteq> to_size_type c
      then Raised (Overflow ''Matrix size calculation overflow'') ()
      else Returned sz ())"
  by (simp add: calculate_size_def promoted_to_int_def size_cast_int size_mod_int Let_def)

lemma calculate_size_pos:
  assumes "0 < r" "r \<le> INT_MAX" "0 < c" "c \<le> INT_MAX"
  shows "calculate_size Idx_int r c =
           (if r * c < int UINT_MOD then Returned (nat (r * c)) ()
            else Raised (Overflow ''Matrix size calculation overflow'') ())"
proof -
  have r: "to_size_type r = nat r" and c: "to_size_type c = nat c"
    using assms by (simp_all add: to_size_type_nat)
  have prod: "int (nat r * nat c) = r * c" using assms by simp
  show ?thesis
  proof (cases "r * c < int UINT_MOD")
    case True
    then have "nat r * nat c < UINT_MOD" using prod by linarith
    then have "(nat r * nat c) mod UINT_MOD = nat r * nat c" by simp
    moreover have "nat (r * c) = nat r * nat c" using assms by (simp add: nat_mult_distrib)
    ultimately show ?thesis using True assms
      by (simp add: calculate_size_int r c Let_def)
  next
    case False
    then have "UINT_MOD \<le> nat r * nat c" using prod by linarith
    then have "((nat r * nat c) mod UINT_MOD) div nat r \<noteq> nat c"
      using assms by (intro mod_mult_div_overflow) (simp_all add: UINT_MOD_def)
    then show ?thesis using False assms
      by (simp add: calculate_size_int r c Let_def)
  qed
qed

lemma calculate_size_zero:
  assumes "0 \<le> r" "r \<le> INT_MAX" "0 \<le> c" "c \<le> INT_MAX" "r = 0 \<or> c = 0"
  shows "calculate_size Idx_int r c = Returned 0 ()"
  using assms by (auto simp: calculate_size_int to_size_type_nat Let_def UINT_MOD_def)

text \<open>
  The constructor at \<open>Idx = int\<close>: InvalidArgument exactly for a negative argument, Overflow
  exactly when the product of two non-negative arguments does not fit the 32-bit
  \<open>size_type\<close>, an empty buffer with both dimensions kept when one of them is zero, and
  otherwise \<open>rows * cols\<close> copies of \<open>Ty{}\<close>, unless the allocation or a constructor of
  \<open>Ty\<close> throws.
\<close>

lemma array2d_dims_int_cases:
  assumes "is_index r" "is_index c"
  shows "((\<exists>msg. array2d_dims Idx_int T env r c = Raised (InvalidArgument msg) ()) \<longleftrightarrow>
             r < 0 \<or> c < 0) \<and>
         ((\<exists>msg. array2d_dims Idx_int T env r c = Raised (Overflow msg) ()) \<longleftrightarrow>
             0 \<le> r \<and> 0 \<le> c \<and> int UINT_MOD \<le> r * c) \<and>
         (0 \<le> r \<and> 0 \<le> c \<and> (r = 0 \<or> c = 0) \<longrightarrow>
             array2d_dims Idx_int T env r c =
               Returned \<lparr>m_rows = r, m_cols = c, m_data = []\<rparr> ()) \<and>
         (0 < r \<and> 0 < c \<and> r * c < int UINT_MOD \<longrightarrow>
             array2d_dims Idx_int T env r c =
               (if nat (r * c) > max_alloc env then Raised BadAlloc ()
                else if elem_budget env < nat (r * c) then Raised ElementThrew ()
                else Returned \<lparr>m_rows = r, m_cols = c,
                               m_data = replicate (nat (r * c)) (default_value T)\<rparr> ()))"
proof -
  have b: "r \<le> INT_MAX" "c \<le> INT_MAX" using assms by (simp_all add: is_index_def)
  consider (neg) "r < 0 \<or> c < 0" | (zero) "0 \<le> r" "0 \<le> c" "r = 0 \<or> c = 0"
    | (pos) "0 < r" "0 < c" by linarith
  then show ?thesis
  proof cases
    case neg
    then have "\<not> (0 \<le> r \<and> 0 \<le> c)" by linarith
    with neg show ?thesis
      by (auto simp: array2d_dims_def validate_dimension_def)
  next
    case zero
    then have "r * c = 0" by auto
    with zero show ?thesis
      by (auto simp: array2d_dims_def validate_dimension_def UINT_MOD_def)
  next
    case pos
    then show ?thesis using b
      by (auto simp: array2d_dims_def validate_dimension_def calculate_size_pos vector_resize_def)
  qed
qed

text \<open>
  At an index type narrower than \<open>int\<close> the product of two positive values of \<open>Idx\<close> is
  computed exactly as an \<open>int\<close> (it is below \<open>2^30\<close>), so the quotient of the overflow test
  always gives back the second operand: the test never fires, and the count is cut down to
  \<open>size_type\<close> by the \<open>return\<close>.
\<close>

lemma calculate_size_promoted:
  assumes "promoted_to_int I" "0 < r" "r \<le> idx_max I" "0 < c" "c \<le> idx_max I"
  shows "calculate_size I r c = Returned (nat (r * c) mod size_mod I) ()"
proof -
  have w: "idx_max I \<le> 32767" "int (size_mod I) > idx_max I"
    using assms(1) by (cases I; simp add: promoted_to_int_def idx_max_def size_mod_def)+
  have a: "size_cast I r = nat r" and b: "size_cast I c = nat c"
    using assms w by (simp_all add: size_cast_def)
  have "r * c \<le> 32767 * 32767"
    using assms w by (intro mult_mono) simp_all
  then have small: "\<not> int (nat r * nat c) > INT_MAX"
    using assms by (simp add: INT_MAX_def)
  have quot: "(nat r * nat c) div nat r = nat c" using assms by simp
  have prod: "nat (r * c) = nat r * nat c" using assms by (simp add: nat_mult_distrib)
  show ?thesis
    unfolding calculate_size_def Let_def a b if_P [OF assms(1)] if_not_P [OF small]
    using quot prod by simp
qed

lemma array2d_dims_promoted:
  assumes "promoted_to_int I" "0 < r" "r \<le> idx_max I" "0 < c" "c \<le> idx_max I"
  shows "array2d_dims I T env r c =
           (if nat (r * c) mod size_mod I > max_alloc env then Raised BadAlloc ()
            else if elem_budget env < nat (r * c) mod size_mod I then Raised ElementThrew ()
            else Returned \<lparr>m_rows = r, m_cols = c,
                           m_data = replicate (nat (r * c) mod size_mod I) (default_value T)\<rparr> ())"
  using assms
  by (simp add: array2d_dims_def validate_dimension_def calculate_size_promoted vector_resize_def)

lemma array2d_dims_promoted_no_overflow:
  assumes "promoted_to_int I" "is_index_of I r" "is_index_of I c"
  shows "array2d_dims I T env r c \<noteq> Raised (Overflow msg) ()"
proof (cases "0 < r \<and> 0 < c")
  case True
  then show ?thesis
    using assms array2d_dims_promoted [of I r c T env] by (simp add: is_index_of_def)
next
  case False
  then show ?thesis
    by (auto simp: array2d_dims_def validate_dimension_def)
qed

text \<open>
  Claim C8 does not hold on the code: the constructor does not throw Overflow when the
  product of its arguments cannot be represented in the size type, if the index type is
  narrower than \<open>int\<close>. For \<open>array2d<int, short>\<close> the size type is \<open>unsigned short\<close>, with
  65536 values. 300 is a value of \<open>short\<close>, the product \<open>300 * 300 = 90000\<close> is not a
  value of \<open>unsigned short\<close>, and \<open>array2d<int, short>(300, 300)\<close>, with nothing failing
  in the allocator, returns a container that reports 300 rows and 300 columns over a buffer
  of \<open>90000 mod 65536 = 24464\<close> elements.
\<close>

theorem array2d_dims_short_no_overflow:
  "is_index_of Idx_short 300 \<and>
   int (size_mod Idx_short) \<le> 300 * 300 \<and>
   array2d_dims Idx_short int_elem no_faults 300 300 =
     Returned \<lparr>m_rows = 300, m_cols = 300, m_data = replicate 24464 0\<rparr> ()"
proof -
  have p: "promoted_to_int Idx_short" by (simp add: promoted_to_int_def)
  have m: "idx_max Idx_short = 32767" "size_mod Idx_short = 65536"
    by (simp_all add: idx_max_def size_mod_def)
  have n: "nat (300 * 300) mod size_mod Idx_short = 24464" by (simp add: m)
  have "array2d_dims Idx_short int_elem no_faults 300 300 =
          Returned \<lparr>m_rows = 300, m_cols = 300, m_data = replicate 24464 0\<rparr> ()"
    unfolding array2d_dims_promoted [OF p, of 300 300 int_elem no_faults, unfolded m, simplified] n
    by (simp add: no_faults_def UINT_MOD_def int_elem_def)
  then show ?thesis by (simp add: is_index_of_def m)
qed

subsection \<open>Row-major addressing\<close>

lemma offset_bound:
  fixes r c nr nc :: int
  assumes "0 \<le> r" "r < nr" "0 \<le> c" "c < nc"
  shows "r * nc + c < nr * nc"
proof -
  have "r + 1 \<le> nr" using assms by simp
  moreover have "0 \<le> nc" using assms by simp
  ultimately have "(r + 1) * nc \<le> nr * nc" by (rule mult_right_mono)
  then show ?thesis using assms by (simp add: algebra_simps)
qed

lemma calculate_offset_valid:
  assumes "wf m" "0 \<le> r" "r < m_rows m" "0 \<le> c" "c < m_cols m"
  shows "calculate_offset m r c = nat (r * m_cols m + c)"
    and "nat (r * m_cols m + c) < length (m_data m)"
proof -
  have lt: "r * m_cols m + c < m_rows m * m_cols m"
    using assms by (intro offset_bound) simp_all
  have nn: "0 \<le> r * m_cols m + c" using assms by simp
  have len: "int (length (m_data m)) = m_rows m * m_cols m" "length (m_data m) < UINT_MOD"
    using assms(1) by (simp_all add: wf_def)
  show b: "nat (r * m_cols m + c) < length (m_data m)"
    using lt nn len by linarith
  have rr: "to_size_type r = nat r" "to_size_type c = nat c"
    "to_size_type (m_cols m) = nat (m_cols m)"
    using assms by (simp_all add: to_size_type_nat wf_def)
  have "nat r * nat (m_cols m) + nat c = nat (r * m_cols m + c)"
    using assms by (simp add: nat_add_distrib nat_mult_distrib)
  then show "calculate_offset m r c = nat (r * m_cols m + c)"
    using b len by (simp add: calculate_offset_def rr)
qed

text \<open>
  Claim C2. In a container that satisfies the shape invariant, for every valid pair
  \<open>(r, c)\<close> the offset \<open>r * cols() + c\<close> lies inside the buffer, and \<open>operator()(r, c)\<close>,
  \<open>operator[](r)[c]\<close> and the dereferenced iterator \<open>begin() + (r * cols() + c)\<close> all read
  the buffer element at that offset.
\<close>

theorem row_major_addressing:
  assumes "wf m" "0 \<le> r" "r < rows m" "0 \<le> c" "c < cols m"
  shows "int (size_arr m) = rows m * cols m \<and>
         r * cols m + c < int (size_arr m) \<and>
         op_call m r c = Some (m_data m ! nat (r * cols m + c)) \<and>
         ptr_read m (op_index m r) c = Some (m_data m ! nat (r * cols m + c)) \<and>
         iter_deref m (iter_plus (begin_arr m) (r * cols m + c)) =
           Some (m_data m ! nat (r * cols m + c))"
proof -
  have v: "0 \<le> r" "r < m_rows m" "0 \<le> c" "c < m_cols m"
    using assms by (simp_all add: rows_def cols_def)
  have c0: "0 < m_cols m" using v by simp
  have off: "calculate_offset m r c = nat (r * m_cols m + c)"
    and lt: "nat (r * m_cols m + c) < length (m_data m)"
    using calculate_offset_valid [OF assms(1) v] by simp_all
  have off0: "calculate_offset m r 0 = nat (r * m_cols m)"
    using calculate_offset_valid(1) [OF assms(1) v(1) v(2) _ c0] by simp
  have nn: "0 \<le> r * m_cols m + c" using v by simp
  have sz: "size_arr m = length (m_data m)"
    using assms(1) by (simp add: size_arr_def wf_def)
  have len: "int (length (m_data m)) = m_rows m * m_cols m"
    using assms(1) by (simp add: wf_def)
  have p: "int (nat (r * m_cols m)) + c = r * m_cols m + c" using v by simp
  have lti: "r * m_cols m + c < m_rows m * m_cols m"
    using v by (intro offset_bound) simp_all
  have rnn: "0 \<le> r * m_cols m" using v by simp
  show ?thesis
    using lt nn lti rnn
    by (simp add: rows_def cols_def sz len op_call_def vec_at_def off op_index_def off0
        ptr_read_def p iter_deref_def iter_plus_def begin_arr_def Let_def)
qed


theorem row_major_addressing_witness:
  "wf example_2x3 \<and> (0::int) \<le> 1 \<and> 1 < rows example_2x3 \<and> (0::int) \<le> 2 \<and>
   2 < cols example_2x3 \<and>
   op_call example_2x3 1 2 = Some 6 \<and>
   ptr_read example_2x3 (op_index example_2x3 1) 2 = Some 6 \<and>
   iter_deref example_2x3 (iter_plus (begin_arr example_2x3) 5) = Some 6"
proof -
  have w: "wf example_2x3"
    by (simp add: wf_def example_2x3_def INT_MAX_def UINT_MOD_def)
  have h: "(0::int) \<le> 1" "1 < rows example_2x3" "(0::int) \<le> 2" "2 < cols example_2x3"
    by (simp_all add: rows_def cols_def example_2x3_def)
  have e: "cols example_2x3 = 3" "m_data example_2x3 ! 5 = 6"
    by (simp_all add: cols_def example_2x3_def)
  show ?thesis
    using w h row_major_addressing [OF w h] by (simp add: e)
qed

subsection \<open>Checked access\<close>

lemma at_raises_iff:
  "(\<exists>msg s. at m row col = Raised (OutOfRange msg) s) \<longleftrightarrow>
           row < 0 \<or> row \<ge> rows m \<or> col < 0 \<or> col \<ge> cols m"
  by (cases "vec_at (m_data m) (calculate_offset m row col)")
     (simp_all add: at_def at_impl_def rows_def cols_def)

lemma at_raises:
  "row < 0 \<or> row \<ge> rows m \<or> col < 0 \<or> col \<ge> cols m \<Longrightarrow>
   at m row col = Raised (OutOfRange (format_bounds_error m row col)) m"
  by (simp add: at_def at_impl_def rows_def cols_def)

lemma sublist_skip: "sublist xs ys \<Longrightarrow> sublist xs (ps @ ys)"
  unfolding sublist_def by (metis append.assoc)

lemma format_bounds_error_sublists:
  "sublist (to_string row) (format_bounds_error m row col)"
  "sublist (to_string col) (format_bounds_error m row col)"
  "sublist (to_string (rows m)) (format_bounds_error m row col)"
  "sublist (to_string (cols m)) (format_bounds_error m row col)"
proof -
  show "sublist (to_string row) (format_bounds_error m row col)"
    unfolding format_bounds_error_def
    by (rule sublist_appendI)
  show "sublist (to_string col) (format_bounds_error m row col)"
    unfolding format_bounds_error_def
    by (rule sublist_skip, rule sublist_skip, rule sublist_appendI)
  show "sublist (to_string (rows m)) (format_bounds_error m row col)"
    unfolding format_bounds_error_def rows_def
    by (rule sublist_skip, rule sublist_skip, rule sublist_skip, rule sublist_skip, rule sublist_appendI)
  show "sublist (to_string (cols m)) (format_bounds_error m row col)"
    unfolding format_bounds_error_def cols_def
    by (rule sublist_skip, rule sublist_skip, rule sublist_skip, rule sublist_skip, rule sublist_skip, rule sublist_skip, rule sublist_appendI)
qed

lemma at_returns:
  assumes "wf m" "0 \<le> row" "row < rows m" "0 \<le> col" "col < cols m"
  shows "row * cols m + col < int (size_arr m) \<and>
            at m row col = Returned (m_data m ! nat (row * cols m + col)) m"
proof -
  have v: "0 \<le> row" "row < m_rows m" "0 \<le> col" "col < m_cols m"
    using assms by (simp_all add: rows_def cols_def)
  have sz: "size_arr m = length (m_data m)"
    using assms(1) by (simp add: size_arr_def wf_def)
  have nn: "0 \<le> row * m_cols m + col" using v by simp
  show ?thesis
    using calculate_offset_valid [OF assms(1) v] v nn
    by (simp add: at_def at_impl_def vec_at_def sz cols_def)
qed

lemma digit_char_mem: "d < 10 \<Longrightarrow> digit_char d \<in> set ''0123456789''"
  unfolding digit_char_def by (rule nth_mem) simp

lemma digit_char_inj: "d < 10 \<Longrightarrow> e < 10 \<Longrightarrow> digit_char d = digit_char e \<Longrightarrow> d = e"
proof -
  assume a: "d < 10" "e < 10" "digit_char d = digit_char e"
  have dist: "distinct ''0123456789''" by simp
  have "d < length ''0123456789''" "e < length ''0123456789''" using a by simp_all
  then show "d = e" using a(3) dist unfolding digit_char_def
    by (simp only: nth_eq_iff_index_eq)
qed

lemma to_string_nat_digits: "set (to_string_nat n) \<subseteq> set ''0123456789''"
proof (induction n rule: to_string_nat.induct)
  case (1 n)
  show ?case
  proof (cases "n < 10")
    case True
    then show ?thesis using digit_char_mem [of n] by (subst to_string_nat.simps) simp
  next
    case False
    have "n mod 10 < 10" by simp
    then have "digit_char (n mod 10) \<in> set ''0123456789''" by (rule digit_char_mem)
    moreover have "set (to_string_nat (n div 10)) \<subseteq> set ''0123456789''"
      using False by (rule "1.IH")
    ultimately show ?thesis using False by (subst to_string_nat.simps) simp
  qed
qed

lemma to_string_nat_nonempty: "to_string_nat n \<noteq> []"
  by (subst to_string_nat.simps) simp

lemma to_string_nat_inj: "to_string_nat n = to_string_nat m \<Longrightarrow> n = m"
proof (induction n arbitrary: m rule: to_string_nat.induct)
  case (1 n)
  show ?case
  proof (cases "n < 10")
    case True
    then have n: "to_string_nat n = [digit_char n]" by (subst to_string_nat.simps) simp
    show ?thesis
    proof (cases "m < 10")
      case T: True
      then have "to_string_nat m = [digit_char m]" by (subst to_string_nat.simps) simp
      then show ?thesis using n "1.prems" True T digit_char_inj by simp
    next
      case False
      then have "to_string_nat m = to_string_nat (m div 10) @ [digit_char (m mod 10)]"
        by (subst to_string_nat.simps) simp
      then have "to_string_nat (m div 10) = []" using n "1.prems" by simp
      then show ?thesis using to_string_nat_nonempty by blast
    qed
  next
    case False
    then have n: "to_string_nat n = to_string_nat (n div 10) @ [digit_char (n mod 10)]"
      by (subst to_string_nat.simps) simp
    show ?thesis
    proof (cases "m < 10")
      case True
      then have "to_string_nat m = [digit_char m]" by (subst to_string_nat.simps) simp
      then have "to_string_nat (n div 10) = []" using n "1.prems" by simp
      then show ?thesis using to_string_nat_nonempty by blast
    next
      case F: False
      then have "to_string_nat m = to_string_nat (m div 10) @ [digit_char (m mod 10)]"
        by (subst to_string_nat.simps) simp
      then have e: "to_string_nat (n div 10) = to_string_nat (m div 10)"
        "digit_char (n mod 10) = digit_char (m mod 10)"
        using n "1.prems" by simp_all
      have "n div 10 = m div 10" using False e(1) by (rule "1.IH")
      moreover have "n mod 10 = m mod 10" using e(2) by (intro digit_char_inj) simp_all
      ultimately show ?thesis by (metis div_mult_mod_eq)
    qed
  qed
qed

lemma digits_sub: "c \<in> set ''0123456789'' \<Longrightarrow> c \<in> set ''-0123456789''"
  by (simp only: list.set insert_iff) blast

lemma to_string_chars: "c \<in> set (to_string i) \<Longrightarrow> c \<in> set ''-0123456789''"
proof (cases "i < 0")
  case True
  assume "c \<in> set (to_string i)"
  then have "c = CHR ''-'' \<or> c \<in> set (to_string_nat (nat (- i)))"
    using True by (simp add: to_string_def)
  then show ?thesis
  proof
    assume "c = CHR ''-''"
    then show ?thesis by simp
  next
    assume "c \<in> set (to_string_nat (nat (- i)))"
    then have "c \<in> set ''0123456789''" using to_string_nat_digits by blast
    then show ?thesis by (rule digits_sub)
  qed
next
  case False
  assume "c \<in> set (to_string i)"
  then have "c \<in> set (to_string_nat (nat i))" using False by (simp add: to_string_def)
  then have "c \<in> set ''0123456789''" using to_string_nat_digits by blast
  then show ?thesis by (rule digits_sub)
qed

lemma to_string_inj: "to_string i = to_string j \<Longrightarrow> i = j"
proof -
  assume a: "to_string i = to_string j"
  have nd: "CHR ''-'' \<notin> set ''0123456789''" by simp
  have pos_hd: "hd (to_string_nat n) \<noteq> CHR ''-''" for n
  proof -
    have "hd (to_string_nat n) \<in> set (to_string_nat n)"
      using to_string_nat_nonempty by simp
    then have "hd (to_string_nat n) \<in> set ''0123456789''"
      using to_string_nat_digits by blast
    then show ?thesis using nd by metis
  qed
  show "i = j"
  proof (cases "i < 0")
    case True
    show ?thesis
    proof (cases "j < 0")
      case T: True
      then have "to_string_nat (nat (- i)) = to_string_nat (nat (- j))"
        using a True by (simp add: to_string_def)
      then have "nat (- i) = nat (- j)" by (rule to_string_nat_inj)
      then show ?thesis using True T by simp
    next
      case False
      then have "CHR ''-'' # to_string_nat (nat (- i)) = to_string_nat (nat j)"
        using a True by (simp add: to_string_def)
      then have "hd (to_string_nat (nat j)) = CHR ''-''" by (metis list.sel(1))
      then show ?thesis using pos_hd by blast
    qed
  next
    case False
    show ?thesis
    proof (cases "j < 0")
      case True
      then have "to_string_nat (nat i) = CHR ''-'' # to_string_nat (nat (- j))"
        using a False by (simp add: to_string_def)
      then have "hd (to_string_nat (nat i)) = CHR ''-''" by (metis list.sel(1))
      then show ?thesis using pos_hd by blast
    next
      case F: False
      then have "to_string_nat (nat i) = to_string_nat (nat j)"
        using a False by (simp add: to_string_def)
      then have "nat i = nat j" by (rule to_string_nat_inj)
      then show ?thesis using False F by simp
    qed
  qed
qed

lemma split_at_separator:
  assumes "\<And>c. c \<in> set a \<Longrightarrow> P c" "\<And>c. c \<in> set a' \<Longrightarrow> P c" "\<not> P s"
    "a @ s # r = a' @ s # r'"
  shows "a = a' \<and> r = r'"
proof -
  have t1: "takeWhile P (a @ s # r) = a"
    using assms(1,3) by (simp add: takeWhile_tail)
  have t2: "takeWhile P (a' @ s # r') = a'"
    using assms(2,3) by (simp add: takeWhile_tail)
  have "takeWhile P (a @ s # r) = takeWhile P (a' @ s # r')"
    using assms(4) by (rule arg_cong)
  then have a: "a = a'" unfolding t1 t2 .
  have "a @ s # r = a @ s # r'" using assms(4) unfolding a .
  then show ?thesis using a by simp
qed

lemma comma_not_num: "CHR '','' \<notin> set ''-0123456789''"
  by simp

lemma paren_not_num: "CHR '')'' \<notin> set ''-0123456789''"
  by simp

lemma format_bounds_error_inj:
  assumes "format_bounds_error m row col = format_bounds_error m' row' col'"
  shows "row = row' \<and> col = col' \<and> m_rows m = m_rows m' \<and> m_cols m = m_cols m'"
proof -
  let ?R1 = "'' '' @ to_string col @ CHR '')'' #
              ('' out of range [0, '' @ to_string (m_rows m) @ CHR '')'' #
                ('' x [0, '' @ to_string (m_cols m) @ '')''))"
  let ?R1' = "'' '' @ to_string col' @ CHR '')'' #
              ('' out of range [0, '' @ to_string (m_rows m') @ CHR '')'' #
                ('' x [0, '' @ to_string (m_cols m') @ '')''))"
  let ?R2 = "'' out of range [0, '' @ to_string (m_rows m) @ CHR '')'' #
                ('' x [0, '' @ to_string (m_cols m) @ '')'')"
  let ?R2' = "'' out of range [0, '' @ to_string (m_rows m') @ CHR '')'' #
                ('' x [0, '' @ to_string (m_cols m') @ '')'')"
  let ?R3 = "'' x [0, '' @ to_string (m_cols m) @ '')''"
  let ?R3' = "'' x [0, '' @ to_string (m_cols m') @ '')''"
  have e0: "to_string row @ CHR '','' # ?R1 = to_string row' @ CHR '','' # ?R1'"
    using assms by (simp add: format_bounds_error_def)
  have a1: "to_string row = to_string row' \<and> ?R1 = ?R1'"
    using to_string_chars to_string_chars comma_not_num e0 by (rule split_at_separator)
  then have e1: "to_string col @ CHR '')'' # ?R2 = to_string col' @ CHR '')'' # ?R2'"
    by simp
  have a2: "to_string col = to_string col' \<and> ?R2 = ?R2'"
    using to_string_chars to_string_chars paren_not_num e1 by (rule split_at_separator)
  then have e2: "to_string (m_rows m) @ CHR '')'' # ?R3 =
                 to_string (m_rows m') @ CHR '')'' # ?R3'"
    by simp
  have a3: "to_string (m_rows m) = to_string (m_rows m') \<and> ?R3 = ?R3'"
    using to_string_chars to_string_chars paren_not_num e2 by (rule split_at_separator)
  then have s4: "to_string (m_cols m) = to_string (m_cols m')" by simp
  have "row = row'" using a1 to_string_inj by blast
  moreover have "col = col'" using a2 to_string_inj by blast
  moreover have "m_rows m = m_rows m'" using a3 to_string_inj by blast
  moreover have "m_cols m = m_cols m'" using s4 by (rule to_string_inj)
  ultimately show ?thesis by simp
qed

text \<open>
  Claim C5. \<open>at(row, col)\<close> throws OutOfRange exactly when \<open>row < 0\<close>, \<open>row >= rows()\<close>,
  \<open>col < 0\<close> or \<open>col >= cols()\<close>. The message is the formatted text, in which the decimal
  renderings of both attempted indices and of both bounds occur, and from which all four
  numbers can be read back: two messages are equal only if the indices and the bounds are.
  On success, in a container that satisfies the shape invariant, the offset
  \<open>row * cols() + col\<close> is inside the buffer and the element there is returned. In both
  cases the state after the call is the state before it.
\<close>

theorem at_checked_access:
  "((\<exists>msg s. at m row col = Raised (OutOfRange msg) s) \<longleftrightarrow>
      row < 0 \<or> row \<ge> rows m \<or> col < 0 \<or> col \<ge> cols m) \<and>
   (row < 0 \<or> row \<ge> rows m \<or> col < 0 \<or> col \<ge> cols m \<longrightarrow>
      at m row col = Raised (OutOfRange (format_bounds_error m row col)) m \<and>
      sublist (to_string row) (format_bounds_error m row col) \<and>
      sublist (to_string col) (format_bounds_error m row col) \<and>
      sublist (to_string (rows m)) (format_bounds_error m row col) \<and>
      sublist (to_string (cols m)) (format_bounds_error m row col)) \<and>
   (wf m \<and> 0 \<le> row \<and> row < rows m \<and> 0 \<le> col \<and> col < cols m \<longrightarrow>
      row * cols m + col < int (size_arr m) \<and>
      at m row col = Returned (m_data m ! nat (row * cols m + col)) m) \<and>
   (format_bounds_error m row col = format_bounds_error m' row' col' \<longrightarrow>
      row = row' \<and> col = col' \<and> rows m = rows m' \<and> cols m = cols m')"
proof (intro conjI impI)
  assume "format_bounds_error m row col = format_bounds_error m' row' col'"
  then show "row = row'" "col = col'" "rows m = rows m'" "cols m = cols m'"
    using format_bounds_error_inj [of m row col m' row' col'] by (simp_all add: rows_def cols_def)
next
  show "(\<exists>msg s. at m row col = Raised (OutOfRange msg) s) \<longleftrightarrow>
      row < 0 \<or> row \<ge> rows m \<or> col < 0 \<or> col \<ge> cols m"
    by (rule at_raises_iff)
next
  assume "row < 0 \<or> row \<ge> rows m \<or> col < 0 \<or> col \<ge> cols m"
  then show "at m row col = Raised (OutOfRange (format_bounds_error m row col)) m"
    by (rule at_raises)
next
  assume h: "wf m \<and> 0 \<le> row \<and> row < rows m \<and> 0 \<le> col \<and> col < cols m"
  then show "row * cols m + col < int (size_arr m)"
    using at_returns [of m row col] by simp
  from h show "at m row col = Returned (m_data m ! nat (row * cols m + col)) m"
    using at_returns [of m row col] by simp
qed (rule format_bounds_error_sublists)+

theorem at_checked_access_witness:
  "wf example_2x3 \<and>
   at example_2x3 1 2 = Returned 6 example_2x3 \<and>
   at example_2x3 2 0 =
     Raised (OutOfRange ''array2d: index (2, 0) out of range [0, 2) x [0, 3)'') example_2x3 \<and>
   sublist ''2'' ''array2d: index (2, 0) out of range [0, 2) x [0, 3)''"
proof -
  have w: "wf example_2x3"
    by (simp add: wf_def example_2x3_def INT_MAX_def UINT_MOD_def)
  have d: "rows example_2x3 = 2" "cols example_2x3 = 3" "m_data example_2x3 ! 5 = 6"
    by (simp_all add: rows_def cols_def example_2x3_def)
  have f: "format_bounds_error example_2x3 2 0 =
             ''array2d: index (2, 0) out of range [0, 2) x [0, 3)''"
    "to_string 2 = ''2''"
    by (simp_all add: format_bounds_error_def to_string_def to_string_nat.simps digit_char_def
        example_2x3_def)
  show ?thesis
    using w at_checked_access [of example_2x3 1 2 example_2x3 1 2]
      at_checked_access [of example_2x3 2 0 example_2x3 2 0]
    by (simp add: d f)
qed

subsection \<open>Filling\<close>

lemma std_fill_length: "length (std_fill xs i n v) = length xs"
proof (induction xs i n v rule: std_fill.induct)
  case (1 xs first lim val)
  show ?case
  proof (cases "first < lim")
    case True
    then show ?thesis using 1 by (subst std_fill.simps) simp
  next
    case False
    then show ?thesis by (subst std_fill.simps) simp
  qed
qed

lemma std_fill_nth:
  "k < length xs \<Longrightarrow> std_fill xs i n v ! k = (if i \<le> k \<and> k < n then v else xs ! k)"
proof (induction xs i n v rule: std_fill.induct)
  case (1 xs first lim val)
  show ?case
  proof (cases "first < lim")
    case True
    then have "std_fill xs first lim val ! k = std_fill (xs[first := val]) (Suc first) lim val ! k"
      by (subst std_fill.simps) simp
    also have "\<dots> = (if Suc first \<le> k \<and> k < lim then val else xs[first := val] ! k)"
      using 1 True by simp
    also have "\<dots> = (if first \<le> k \<and> k < lim then val else xs ! k)"
      using 1(2) True by (cases "k = first") auto
    finally show ?thesis .
  next
    case False
    then show ?thesis by (subst std_fill.simps) auto
  qed
qed

lemma std_fill_all: "std_fill xs 0 (length xs) v = replicate (length xs) v"
  by (rule nth_equalityI) (simp_all add: std_fill_length std_fill_nth)

lemma memset_elems_all: "memset_elems xs v (length xs) = replicate (length xs) v"
  by (simp add: memset_elems_def)

lemma fill_eq: "fill T v m = m\<lparr>m_data := replicate (length (m_data m)) v\<rparr>"
  by (simp add: fill_def std_fill_all memset_elems_all)

lemma par_fill_length: "length (par_fill sched xs v) = length xs"
  unfolding par_fill_def by (induction sched arbitrary: xs) simp_all

lemma par_fill_nth:
  "k < length xs \<Longrightarrow> par_fill sched xs v ! k = (if k \<in> set sched then v else xs ! k)"
  unfolding par_fill_def
proof (induction sched arbitrary: xs)
  case Nil
  then show ?case by simp
next
  case (Cons i sched)
  then show ?case by (cases "k = i") simp_all
qed

lemma par_fill_all:
  assumes "set sched = {..<length xs}"
  shows "par_fill sched xs v = replicate (length xs) v"
  by (rule nth_equalityI) (simp_all add: par_fill_length par_fill_nth assms)

text \<open>
  Claim C9. Whatever order the parallel algorithm takes, as long as it assigns every position
  of the buffer, \<open>fill_parallel(v)\<close> ends in exactly the state \<open>fill(v)\<close> ends in; at or
  below 10,000 elements it is \<open>fill(v)\<close>, for any schedule. That state has every element
  equal to \<open>v\<close> and the dimensions unchanged.
\<close>

theorem fill_parallel_equivalence:
  "(set sched = {..<length (m_data m)} \<longrightarrow>
      fill_parallel T sched v m = fill T v m) \<and>
   (length (m_data m) \<le> 10000 \<longrightarrow> fill_parallel T sched v m = fill T v m) \<and>
   m_data (fill T v m) = replicate (length (m_data m)) v \<and>
   rows (fill T v m) = rows m \<and> cols (fill T v m) = cols m"
  by (simp add: fill_parallel_def fill_eq par_fill_all rows_def cols_def)

theorem fill_parallel_equivalence_witness:
  "set (rev [0..<10100]) = {..<length (m_data example_large)} \<and>
   fill_parallel int_elem (rev [0..<10100]) 5 example_large = fill int_elem 5 example_large \<and>
   length (m_data example_2x3) \<le> 10000 \<and>
   fill_parallel int_elem [] 5 example_2x3 = fill int_elem 5 example_2x3"
proof -
  have h1: "set (rev [0..<10100]) = {..<length (m_data example_large)}"
    by (simp add: example_large_def atLeast0LessThan)
  have h2: "length (m_data example_2x3) \<le> 10000"
    by (simp add: example_2x3_def)
  show ?thesis
    using h1 h2 fill_parallel_equivalence [of "rev [0..<10100]" example_large int_elem 5]
      fill_parallel_equivalence [of "[]" example_2x3 int_elem 5]
    by blast
qed

subsection \<open>Copying a row\<close>

lemma copy_n_within_length: "length (copy_n_within xs src n dst) = length xs"
  by (induction n arbitrary: xs src dst) simp_all

lemma copy_n_within_nth:
  assumes "dst + n \<le> src \<or> src + n \<le> dst" "src + n \<le> length xs" "dst + n \<le> length xs"
    "k < length xs"
  shows "copy_n_within xs src n dst ! k =
           (if dst \<le> k \<and> k < dst + n then xs ! (src + (k - dst)) else xs ! k)"
  using assms
proof (induction n arbitrary: xs src dst)
  case 0
  then show ?case by auto
next
  case (Suc n)
  let ?ys = "xs[dst := xs ! src]"
  have "copy_n_within xs src (Suc n) dst ! k = copy_n_within ?ys (Suc src) n (Suc dst) ! k"
    by simp
  also have "\<dots> = (if Suc dst \<le> k \<and> k < Suc dst + n then ?ys ! (Suc src + (k - Suc dst))
                    else ?ys ! k)"
    using Suc.prems by (intro Suc.IH) auto
  also have "\<dots> = (if dst \<le> k \<and> k < dst + Suc n then xs ! (src + (k - dst)) else xs ! k)"
  proof (cases "k = dst")
    case True
    then show ?thesis using Suc.prems by simp
  next
    case False
    show ?thesis
    proof (cases "Suc dst \<le> k \<and> k < Suc dst + n")
      case True
      then have "Suc src + (k - Suc dst) \<noteq> dst" using Suc.prems by auto
      moreover have "Suc src + (k - Suc dst) = src + (k - dst)" using True by auto
      ultimately show ?thesis using True Suc.prems by auto
    next
      case F2: False
      then show ?thesis using False Suc.prems by auto
    qed
  qed
  finally show ?case .
qed


lemma op_call_valid:
  assumes "wf m" "0 \<le> r" "r < m_rows m" "0 \<le> c" "c < m_cols m"
  shows "op_call m r c = Some (m_data m ! nat (r * m_cols m + c))"
  using calculate_offset_valid [OF assms] by (simp add: op_call_def vec_at_def)

lemma row_range:
  assumes "wf m" "0 \<le> r" "r < m_rows m"
  shows "calculate_offset m r 0 = nat (r * m_cols m)"
    and "nat (r * m_cols m) + nat (m_cols m) \<le> length (m_data m)"
    and "to_size_type (m_cols m) = nat (m_cols m)"
proof -
  have c: "0 \<le> m_cols m" "m_cols m \<le> INT_MAX" "m_rows m \<le> INT_MAX"
    and len: "int (length (m_data m)) = m_rows m * m_cols m" "length (m_data m) < UINT_MOD"
    using assms(1) by (simp_all add: wf_def)
  have "(r + 1) * m_cols m \<le> m_rows m * m_cols m"
    using assms c by (intro mult_right_mono) simp_all
  then have le: "r * m_cols m + m_cols m \<le> int (length (m_data m))"
    using len by (simp add: algebra_simps)
  have nn: "0 \<le> r * m_cols m" using assms c by simp
  show b: "nat (r * m_cols m) + nat (m_cols m) \<le> length (m_data m)"
    using le nn c by linarith
  show cs: "to_size_type (m_cols m) = nat (m_cols m)"
    using c by (simp add: to_size_type_nat)
  have rs: "to_size_type r = nat r" using assms c by (simp add: to_size_type_nat)
  have z: "to_size_type 0 = 0" by (simp add: to_size_type_def)
  have "nat r * nat (m_cols m) = nat (r * m_cols m)"
    using assms c by (simp add: nat_mult_distrib)
  moreover have "nat (r * m_cols m) < UINT_MOD" using b len by linarith
  ultimately show "calculate_offset m r 0 = nat (r * m_cols m)"
    by (simp add: calculate_offset_def rs cs z)
qed

lemma rows_disjoint:
  fixes s d n :: int
  assumes "0 \<le> s" "s < d" "0 \<le> n"
  shows "nat (s * n) + nat n \<le> nat (d * n)"
proof -
  have "(s + 1) * n \<le> d * n" using assms by (intro mult_right_mono) simp_all
  then have "s * n + n \<le> d * n" by (simp add: algebra_simps)
  moreover have "0 \<le> s * n" using assms by simp
  ultimately show ?thesis using assms by linarith
qed

lemma copy_row_returns:
  assumes "wf m" "0 \<le> s" "s < m_rows m" "0 \<le> d" "d < m_rows m" "s \<noteq> d"
  shows "copy_row T s d m =
           Returned () (m\<lparr>m_data := copy_n_within (m_data m) (nat (s * m_cols m))
                                      (nat (m_cols m)) (nat (d * m_cols m))\<rparr>)"
    and "nat (d * m_cols m) + nat (m_cols m) \<le> nat (s * m_cols m) \<or>
         nat (s * m_cols m) + nat (m_cols m) \<le> nat (d * m_cols m)"
proof -
  have c: "0 \<le> m_cols m" using assms(1) by (simp add: wf_def)
  note rs = row_range [OF assms(1) assms(2) assms(3)]
  note rd = row_range [OF assms(1) assms(4) assms(5)]
  show dis: "nat (d * m_cols m) + nat (m_cols m) \<le> nat (s * m_cols m) \<or>
         nat (s * m_cols m) + nat (m_cols m) \<le> nat (d * m_cols m)"
  proof (cases "s < d")
    case True
    then show ?thesis using rows_disjoint [OF assms(2) True c] by simp
  next
    case False
    then have "d < s" using assms by simp
    then show ?thesis using rows_disjoint [OF assms(4) _ c] by simp
  qed
  then have "memcpy_within (m_data m) (nat (d * m_cols m)) (nat (s * m_cols m)) (nat (m_cols m))
       = Some (copy_n_within (m_data m) (nat (s * m_cols m)) (nat (m_cols m))
                 (nat (d * m_cols m)))"
    by (auto simp: memcpy_within_def)
  then show "copy_row T s d m =
           Returned () (m\<lparr>m_data := copy_n_within (m_data m) (nat (s * m_cols m))
                                      (nat (m_cols m)) (nat (d * m_cols m))\<rparr>)"
    using assms(6) rs rd by (simp add: copy_row_def Let_def)
qed

lemma cell_in_row:
  fixes r c n :: int
  assumes "0 \<le> r" "0 \<le> c" "c < n"
  shows "nat (r * n + c) = nat (r * n) + nat c"
    and "nat (r * n) \<le> nat (r * n + c)"
    and "nat (r * n + c) < nat (r * n) + nat n"
  using assms by (simp_all add: nat_add_distrib)

lemma cell_other_row:
  fixes r d c n :: int
  assumes "0 \<le> r" "0 \<le> d" "r \<noteq> d" "0 \<le> c" "c < n"
  shows "\<not> (nat (d * n) \<le> nat (r * n + c) \<and> nat (r * n + c) < nat (d * n) + nat n)"
proof (cases "r < d")
  case True
  have "nat (r * n) + nat n \<le> nat (d * n)"
    using rows_disjoint [OF assms(1) True] assms by simp
  then show ?thesis using cell_in_row(3) [OF assms(1) assms(4) assms(5)] by linarith
next
  case False
  then have "d < r" using assms by simp
  then have "nat (d * n) + nat n \<le> nat (r * n)"
    using rows_disjoint [OF assms(2), of r n] assms by simp
  then show ?thesis using cell_in_row(2) [OF assms(1) assms(4) assms(5)] by linarith
qed

text \<open>
  Claim C10. In a container that satisfies the shape invariant, for valid row indices:
  \<open>copy_row(src, src)\<close> returns the container as it was; for \<open>src \<noteq> dest\<close> the call
  returns, the dimensions and the size are unchanged, every element of row \<open>dest\<close> equals
  the element of row \<open>src\<close> in the same column before the call, and every element of every
  other row is what it was.
\<close>

theorem copy_row_frame:
  assumes "wf m" "0 \<le> s" "s < rows m" "0 \<le> d" "d < rows m"
  shows "(s = d \<longrightarrow> copy_row T s d m = Returned () m) \<and>
         (s \<noteq> d \<longrightarrow>
            (\<exists>m'. copy_row T s d m = Returned () m' \<and>
                  rows m' = rows m \<and> cols m' = cols m \<and> size_arr m' = size_arr m \<and>
                  (\<forall>r c. 0 \<le> r \<and> r < rows m \<and> 0 \<le> c \<and> c < cols m \<longrightarrow>
                     op_call m' r c = (if r = d then op_call m s c else op_call m r c))))"
proof (intro conjI impI)
  assume "s = d"
  then show "copy_row T s d m = Returned () m" by (simp add: copy_row_def)
next
  assume ne: "s \<noteq> d"
  have v: "0 \<le> s" "s < m_rows m" "0 \<le> d" "d < m_rows m"
    using assms by (simp_all add: rows_def)
  let ?n = "m_cols m"
  let ?xs = "copy_n_within (m_data m) (nat (s * ?n)) (nat ?n) (nat (d * ?n))"
  let ?m' = "m\<lparr>m_data := ?xs\<rparr>"
  have ret: "copy_row T s d m = Returned () ?m'"
    and dis: "nat (d * ?n) + nat ?n \<le> nat (s * ?n) \<or> nat (s * ?n) + nat ?n \<le> nat (d * ?n)"
    using copy_row_returns [OF assms(1) v ne] by simp_all
  have len: "length ?xs = length (m_data m)" by (simp add: copy_n_within_length)
  have wf': "wf ?m'" using assms(1) len by (simp add: wf_def)
  note rs = row_range [OF assms(1) v(1) v(2)]
  note rd = row_range [OF assms(1) v(3) v(4)]
  have cells: "op_call ?m' r c = (if r = d then op_call m s c else op_call m r c)"
    if rc: "0 \<le> r \<and> r < rows m \<and> 0 \<le> c \<and> c < cols m" for r c
  proof -
    have vr: "0 \<le> r" "r < m_rows m" "0 \<le> c" "c < ?n"
      using rc by (simp_all add: rows_def cols_def)
    have k: "nat (r * ?n + c) < length (m_data m)"
      using calculate_offset_valid(2) [OF assms(1) vr] .
    have "op_call ?m' r c = Some (?xs ! nat (r * ?n + c))"
      using op_call_valid [OF wf', of r c] vr by simp
    also have "?xs ! nat (r * ?n + c) =
        (if nat (d * ?n) \<le> nat (r * ?n + c) \<and> nat (r * ?n + c) < nat (d * ?n) + nat ?n
         then m_data m ! (nat (s * ?n) + (nat (r * ?n + c) - nat (d * ?n)))
         else m_data m ! nat (r * ?n + c))"
      using dis rs(2) rd(2) k by (intro copy_n_within_nth) simp_all
    also have "\<dots> = (if r = d then m_data m ! nat (s * ?n + c) else m_data m ! nat (r * ?n + c))"
    proof (cases "r = d")
      case True
      then show ?thesis
        using cell_in_row [OF v(3) vr(3) vr(4)] cell_in_row(1) [OF v(1) vr(3) vr(4)] by simp
    next
      case False
      have neg: "\<not> (nat (d * ?n) \<le> nat (r * ?n + c) \<and>
                   nat (r * ?n + c) < nat (d * ?n) + nat ?n)"
        using cell_other_row [OF vr(1) v(3) False vr(3) vr(4)] .
      show ?thesis unfolding if_not_P [OF neg] using False by simp
    qed
    finally show ?thesis
      using op_call_valid [OF assms(1) vr] op_call_valid [OF assms(1) v(1) v(2) vr(3) vr(4)]
      by simp
  qed
  show "\<exists>m'. copy_row T s d m = Returned () m' \<and>
                  rows m' = rows m \<and> cols m' = cols m \<and> size_arr m' = size_arr m \<and>
                  (\<forall>r c. 0 \<le> r \<and> r < rows m \<and> 0 \<le> c \<and> c < cols m \<longrightarrow>
                     op_call m' r c = (if r = d then op_call m s c else op_call m r c))"
  proof (intro exI [of _ ?m'] conjI allI impI)
    show "copy_row T s d m = Returned () ?m'" by (rule ret)
    show "rows ?m' = rows m" by (simp add: rows_def)
    show "cols ?m' = cols m" by (simp add: cols_def)
    show "size_arr ?m' = size_arr m" by (simp add: size_arr_def len)
    fix r c assume "0 \<le> r \<and> r < rows m \<and> 0 \<le> c \<and> c < cols m"
    then show "op_call ?m' r c = (if r = d then op_call m s c else op_call m r c)"
      by (rule cells)
  qed
qed

theorem copy_row_frame_witness:
  "wf example_2x3 \<and> (0::int) \<le> 0 \<and> 0 < rows example_2x3 \<and> (0::int) \<le> 1 \<and>
   1 < rows example_2x3 \<and>
   (\<exists>m'. copy_row int_elem 0 1 example_2x3 = Returned () m' \<and>
         rows m' = 2 \<and> cols m' = 3 \<and>
         op_call m' 1 2 = Some 3 \<and> op_call m' 0 2 = Some 3 \<and> op_call m' 1 0 = Some 1)"
proof -
  have w: "wf example_2x3"
    by (simp add: wf_def example_2x3_def INT_MAX_def UINT_MOD_def)
  have h: "(0::int) \<le> 0" "0 < rows example_2x3" "(0::int) \<le> 1" "1 < rows example_2x3"
    by (simp_all add: rows_def example_2x3_def)
  have d: "rows example_2x3 = 2" "cols example_2x3 = 3"
    by (simp_all add: rows_def cols_def example_2x3_def)
  have e: "op_call example_2x3 0 2 = Some 3" "op_call example_2x3 0 0 = Some 1"
    by (simp_all add: op_call_def vec_at_def calculate_offset_def to_size_type_def
        example_2x3_def UINT_MOD_def)
  from copy_row_frame [OF w h, of int_elem]
  obtain m' where m': "copy_row int_elem 0 1 example_2x3 = Returned () m'"
    "rows m' = rows example_2x3" "cols m' = cols example_2x3"
    "\<forall>r c. 0 \<le> r \<and> r < rows example_2x3 \<and> 0 \<le> c \<and> c < cols example_2x3 \<longrightarrow>
       op_call m' r c = (if r = 1 then op_call example_2x3 0 c else op_call example_2x3 r c)"
    by auto
  have "op_call m' 1 2 = Some 3" "op_call m' 0 2 = Some 3" "op_call m' 1 0 = Some 1"
    using m'(4) by (simp_all add: d e)
  then show ?thesis using w h m' d by simp
qed

subsection \<open>Resize\<close>

lemma copy_n_length: "length (copy_n src f n dst r) = length dst"
  by (induction n arbitrary: dst f r) simp_all

lemma copy_n_nth:
  assumes "r + n \<le> length dst" "k < length dst"
  shows "copy_n src f n dst r ! k =
           (if r \<le> k \<and> k < r + n then src ! (f + (k - r)) else dst ! k)"
  using assms
proof (induction n arbitrary: dst f r)
  case 0
  then show ?case by auto
next
  case (Suc n)
  let ?d = "dst[r := src ! f]"
  have "copy_n src f (Suc n) dst r ! k = copy_n src (Suc f) n ?d (Suc r) ! k" by simp
  also have "\<dots> = (if Suc r \<le> k \<and> k < Suc r + n then src ! (Suc f + (k - Suc r)) else ?d ! k)"
    using Suc.prems by (intro Suc.IH) simp_all
  also have "\<dots> = (if r \<le> k \<and> k < r + Suc n then src ! (f + (k - r)) else dst ! k)"
  proof (cases "k = r")
    case True
    then show ?thesis using Suc.prems by simp
  next
    case False
    show ?thesis
    proof (cases "Suc r \<le> k \<and> k < Suc r + n")
      case True
      moreover have "Suc f + (k - Suc r) = f + (k - r)" using True by auto
      ultimately show ?thesis by auto
    next
      case F2: False
      then show ?thesis using False by auto
    qed
  qed
  finally show ?case .
qed

lemma row_fits:
  fixes i n R C :: int
  assumes "0 \<le> i" "i < R" "0 \<le> n" "n \<le> C"
  shows "nat (i * C) + nat n \<le> nat (R * C)"
proof -
  have "0 \<le> C" using assms by simp
  then have "(i + 1) * C \<le> R * C" using assms by (intro mult_right_mono) simp_all
  then have "i * C + n \<le> R * C" using assms by (simp add: algebra_simps)
  moreover have "0 \<le> i * C" using assms by simp
  ultimately show ?thesis using assms by linarith
qed

lemma size_mult_nowrap:
  fixes i R C :: int
  assumes "0 \<le> i" "i < R" "R \<le> INT_MAX" "0 \<le> C" "C \<le> INT_MAX" "R * C < int UINT_MOD"
  shows "(to_size_type i * to_size_type C) mod UINT_MOD = nat (i * C)"
proof -
  have "to_size_type i = nat i" "to_size_type C = nat C"
    using assms by (simp_all add: to_size_type_nat)
  moreover have "nat i * nat C = nat (i * C)" using assms by (simp add: nat_mult_distrib)
  moreover have "nat (i * C) + nat 0 \<le> nat (R * C)"
    using assms by (intro row_fits) simp_all
  moreover have "0 \<le> R * C" using assms by simp
  then have "nat (R * C) < UINT_MOD" using assms(6) by (simp add: nat_less_iff)
  ultimately have "nat (i * C) < UINT_MOD" by linarith
  then show ?thesis
    using \<open>to_size_type i = nat i\<close> \<open>to_size_type C = nat C\<close>
      \<open>nat i * nat C = nat (i * C)\<close> by simp
qed


lemma other_row_outside:
  fixes r i c n C :: int
  assumes "0 \<le> r" "0 \<le> i" "r \<noteq> i" "0 \<le> c" "c < C" "0 \<le> n" "n \<le> C"
  shows "\<not> (nat (i * C) \<le> nat (r * C + c) \<and> nat (r * C + c) < nat (i * C) + nat n)"
proof (cases "r < i")
  case True
  have "nat (r * C) + nat C \<le> nat (i * C)"
    using row_fits [OF assms(1) True, of C C] assms by simp
  moreover have "nat (r * C + c) < nat (r * C) + nat C"
    using assms by (simp add: nat_add_distrib)
  ultimately show ?thesis by linarith
next
  case False
  then have "i < r" using assms by simp
  then have "nat (i * C) + nat n \<le> nat (r * C)"
    using row_fits [OF assms(2), of r n C] assms by simp
  moreover have "nat (r * C) \<le> nat (r * C + c)"
    using assms by (simp add: nat_add_distrib)
  ultimately show ?thesis by linarith
qed

lemma resize_row_copy:
  assumes wf: "wf m" and pos: "0 < R2" "0 < C2"
    and fit: "R2 * C2 < int UINT_MOD" "R2 \<le> INT_MAX" "C2 \<le> INT_MAX"
    and len: "int (length nd) = R2 * C2"
    and i: "0 \<le> i" "i < min (m_rows m) R2"
  shows "(to_size_type i * to_size_type (m_cols m)) mod UINT_MOD = nat (i * m_cols m)"
    and "(to_size_type i * to_size_type C2) mod UINT_MOD = nat (i * C2)"
    and "to_size_type (min (m_cols m) C2) = nat (min (m_cols m) C2)"
    and "nat (i * m_cols m) + nat (min (m_cols m) C2) \<le> length (m_data m)"
    and "nat (i * C2) + nat (min (m_cols m) C2) \<le> length nd"
    and "\<And>r c. 0 \<le> r \<Longrightarrow> r < R2 \<Longrightarrow> 0 \<le> c \<Longrightarrow> c < C2 \<Longrightarrow>
           copy_n (m_data m) (nat (i * m_cols m)) (nat (min (m_cols m) C2)) nd (nat (i * C2)) !
             nat (r * C2 + c) =
           (if r = i \<and> c < min (m_cols m) C2 then m_data m ! nat (i * m_cols m + c)
            else nd ! nat (r * C2 + c))"
proof -
  have w: "0 \<le> m_rows m" "m_rows m \<le> INT_MAX" "0 \<le> m_cols m" "m_cols m \<le> INT_MAX"
    "int (length (m_data m)) = m_rows m * m_cols m" "length (m_data m) < UINT_MOD"
    using wf by (simp_all add: wf_def)
  have iR: "i < m_rows m" "i < R2" using i by simp_all
  have old: "m_rows m * m_cols m < int UINT_MOD" using w by linarith
  show o1: "(to_size_type i * to_size_type (m_cols m)) mod UINT_MOD = nat (i * m_cols m)"
    using i(1) iR(1) w old by (intro size_mult_nowrap) simp_all
  show o2: "(to_size_type i * to_size_type C2) mod UINT_MOD = nat (i * C2)"
    using i(1) iR(2) pos fit by (intro size_mult_nowrap) simp_all
  have cc: "0 \<le> min (m_cols m) C2" "min (m_cols m) C2 \<le> INT_MAX"
    "min (m_cols m) C2 \<le> m_cols m" "min (m_cols m) C2 \<le> C2"
    using w pos fit by simp_all
  show "to_size_type (min (m_cols m) C2) = nat (min (m_cols m) C2)"
    using cc by (intro to_size_type_nat)
  have "nat (i * m_cols m) + nat (min (m_cols m) C2) \<le> nat (m_rows m * m_cols m)"
    using i(1) iR(1) cc by (intro row_fits) simp_all
  then show b1: "nat (i * m_cols m) + nat (min (m_cols m) C2) \<le> length (m_data m)"
    using w(5) by linarith
  have "nat (i * C2) + nat (min (m_cols m) C2) \<le> nat (R2 * C2)"
    using i(1) iR(2) cc by (intro row_fits) simp_all
  then show b2: "nat (i * C2) + nat (min (m_cols m) C2) \<le> length nd"
    using len by linarith
  fix r c :: int
  assume rc: "0 \<le> r" "r < R2" "0 \<le> c" "c < C2"
  let ?k = "nat (r * C2 + c)"
  have "nat (r * C2) + nat (c + 1) \<le> nat (R2 * C2)"
    using rc by (intro row_fits) simp_all
  moreover have "?k = nat (r * C2) + nat c" using rc by (simp add: nat_add_distrib)
  ultimately have k: "?k < length nd" using len rc by linarith
  have "copy_n (m_data m) (nat (i * m_cols m)) (nat (min (m_cols m) C2)) nd (nat (i * C2)) ! ?k
      = (if nat (i * C2) \<le> ?k \<and> ?k < nat (i * C2) + nat (min (m_cols m) C2)
         then m_data m ! (nat (i * m_cols m) + (?k - nat (i * C2))) else nd ! ?k)"
    using b2 k by (rule copy_n_nth)
  also have "\<dots> = (if r = i \<and> c < min (m_cols m) C2 then m_data m ! nat (i * m_cols m + c)
            else nd ! ?k)"
  proof (cases "r = i")
    case True
    have e: "nat (i * C2 + c) = nat (i * C2) + nat c" "nat (i * m_cols m + c) = nat (i * m_cols m) + nat c"
      using i rc w by (simp_all add: nat_add_distrib)
    have "(nat (i * C2) + nat c < nat (i * C2) + nat (min (m_cols m) C2)) = (c < min (m_cols m) C2)"
      using rc cc by auto
    then show ?thesis using True e by simp
  next
    case False
    have neg: "\<not> (nat (i * C2) \<le> ?k \<and> ?k < nat (i * C2) + nat (min (m_cols m) C2))"
      using rc i(1) False cc by (intro other_row_outside) simp_all
    show ?thesis unfolding if_not_P [OF neg] using False by simp
  qed
  finally show "copy_n (m_data m) (nat (i * m_cols m)) (nat (min (m_cols m) C2)) nd (nat (i * C2)) !
             nat (r * C2 + c) =
           (if r = i \<and> c < min (m_cols m) C2 then m_data m ! nat (i * m_cols m + c)
            else nd ! nat (r * C2 + c))" .
qed


lemma resize_copy_rows_spec:
  assumes wf: "wf m" and pos: "0 < R2" "0 < C2"
    and fit: "R2 * C2 < int UINT_MOD" "R2 \<le> INT_MAX" "C2 \<le> INT_MAX"
    and len: "int (length nd) = R2 * C2"
    and i: "0 \<le> i"
  shows "(case resize_copy_rows T m C2 (min (m_rows m) R2) (min (m_cols m) C2) i nd b of
            Returned u nd' \<Rightarrow>
              length nd' = length nd \<and>
              (\<forall>r c. 0 \<le> r \<and> r < R2 \<and> 0 \<le> c \<and> c < C2 \<longrightarrow>
                 nd' ! nat (r * C2 + c) =
                   (if i \<le> r \<and> r < min (m_rows m) R2 \<and> c < min (m_cols m) C2
                    then m_data m ! nat (r * m_cols m + c) else nd ! nat (r * C2 + c)))
          | Raised e s \<Rightarrow> e = ElementThrew \<and> \<not> trivially_copyable T
          | Undefined \<Rightarrow> False) \<and>
         (trivially_copyable T \<or>
          nat (min (m_rows m) R2 - i) * nat (min (m_cols m) C2) \<le> b \<longrightarrow>
            (\<exists>nd'. resize_copy_rows T m C2 (min (m_rows m) R2) (min (m_cols m) C2) i nd b =
                     Returned () nd'))"
  using len i
proof (induction "nat (min (m_rows m) R2 - i)" arbitrary: i nd b)
  case 0
  then have "\<not> i < min (m_rows m) R2" by linarith
  then have "resize_copy_rows T m C2 (min (m_rows m) R2) (min (m_cols m) C2) i nd b =
               Returned () nd"
    by (subst resize_copy_rows.simps) (simp only: if_False)
  then show ?case using \<open>\<not> i < min (m_rows m) R2\<close> by auto
next
  case (Suc k)
  let ?cr = "min (m_rows m) R2" and ?cc = "min (m_cols m) C2"
  let ?nd1 = "copy_n (m_data m) (nat (i * m_cols m)) (nat ?cc) nd (nat (i * C2))"
  have ilt: "i < ?cr" using Suc.hyps(2) by linarith
  note step = resize_row_copy [OF wf pos fit Suc.prems(1) Suc.prems(2) ilt]
  have len1: "length ?nd1 = length nd" by (simp add: copy_n_length)
  have k: "k = nat (?cr - (i + 1))" using Suc.hyps(2) by linarith
  have unfold: "resize_copy_rows T m C2 ?cr ?cc i nd b =
      (if trivially_copyable T then resize_copy_rows T m C2 ?cr ?cc (i + 1) ?nd1 b
       else if b < nat ?cc then Raised ElementThrew nd
       else resize_copy_rows T m C2 ?cr ?cc (i + 1) ?nd1 (b - nat ?cc))"
    using ilt step(4) step(5)
    by (subst resize_copy_rows.simps) (simp add: Let_def step(1) step(2) step(3))
  have IH: "(case resize_copy_rows T m C2 ?cr ?cc (i + 1) ?nd1 b' of
            Returned u nd' \<Rightarrow>
              length nd' = length ?nd1 \<and>
              (\<forall>r c. 0 \<le> r \<and> r < R2 \<and> 0 \<le> c \<and> c < C2 \<longrightarrow>
                 nd' ! nat (r * C2 + c) =
                   (if i + 1 \<le> r \<and> r < ?cr \<and> c < ?cc
                    then m_data m ! nat (r * m_cols m + c) else ?nd1 ! nat (r * C2 + c)))
          | Raised e s \<Rightarrow> e = ElementThrew \<and> \<not> trivially_copyable T
          | Undefined \<Rightarrow> False) \<and>
         (trivially_copyable T \<or> nat (?cr - (i + 1)) * nat ?cc \<le> b' \<longrightarrow>
            (\<exists>nd'. resize_copy_rows T m C2 ?cr ?cc (i + 1) ?nd1 b' = Returned () nd'))" for b'
    using Suc.prems by (intro Suc.hyps(1) k) (simp_all add: len1)
  have comb: "(case res of
            Returned u nd' \<Rightarrow>
              length nd' = length nd \<and>
              (\<forall>r c. 0 \<le> r \<and> r < R2 \<and> 0 \<le> c \<and> c < C2 \<longrightarrow>
                 nd' ! nat (r * C2 + c) =
                   (if i \<le> r \<and> r < ?cr \<and> c < ?cc
                    then m_data m ! nat (r * m_cols m + c) else nd ! nat (r * C2 + c)))
          | Raised e s \<Rightarrow> e = ElementThrew \<and> \<not> trivially_copyable T
          | Undefined \<Rightarrow> False)"
    if "(case res of
            Returned u nd' \<Rightarrow>
              length nd' = length ?nd1 \<and>
              (\<forall>r c. 0 \<le> r \<and> r < R2 \<and> 0 \<le> c \<and> c < C2 \<longrightarrow>
                 nd' ! nat (r * C2 + c) =
                   (if i + 1 \<le> r \<and> r < ?cr \<and> c < ?cc
                    then m_data m ! nat (r * m_cols m + c) else ?nd1 ! nat (r * C2 + c)))
          | Raised e s \<Rightarrow> e = ElementThrew \<and> \<not> trivially_copyable T
          | Undefined \<Rightarrow> False)" for res :: "(unit, 'a list) outcome"
  proof (cases res)
    case (Returned u nd')
    have cell: "nd' ! nat (r * C2 + c) =
                   (if i \<le> r \<and> r < ?cr \<and> c < ?cc
                    then m_data m ! nat (r * m_cols m + c) else nd ! nat (r * C2 + c))"
      if rc: "0 \<le> r \<and> r < R2 \<and> 0 \<le> c \<and> c < C2" for r c
    proof -
      have a: "nd' ! nat (r * C2 + c) =
                   (if i + 1 \<le> r \<and> r < ?cr \<and> c < ?cc
                    then m_data m ! nat (r * m_cols m + c) else ?nd1 ! nat (r * C2 + c))"
        using that \<open>case res of Returned u nd' \<Rightarrow> _ | Raised e s \<Rightarrow> _ | Undefined \<Rightarrow> _\<close>
        unfolding Returned by simp
      have b: "?nd1 ! nat (r * C2 + c) =
           (if r = i \<and> c < ?cc then m_data m ! nat (i * m_cols m + c)
            else nd ! nat (r * C2 + c))"
        using rc by (intro step(6)) simp_all
      show ?thesis
      proof (cases "r = i")
        case True
        then show ?thesis using a b ilt by simp
      next
        case False
        then have "(i + 1 \<le> r) = (i \<le> r)" by linarith
        then show ?thesis using a b False by simp
      qed
    qed
    show ?thesis
      using that cell unfolding Returned by (simp add: len1)
  next
    case (Raised e s)
    then show ?thesis using that by simp
  next
    case Undefined
    then show ?thesis using that by simp
  qed
  show ?case
  proof (cases "trivially_copyable T")
    case True
    then have eq: "resize_copy_rows T m C2 ?cr ?cc i nd b =
                   resize_copy_rows T m C2 ?cr ?cc (i + 1) ?nd1 b"
      using unfold by simp
    show ?thesis unfolding eq using IH [of b] comb True by blast
  next
    case False
    show ?thesis
    proof (cases "b < nat ?cc")
      case True
      then have eq: "resize_copy_rows T m C2 ?cr ?cc i nd b = Raised ElementThrew nd"
        using unfold False by simp
      have "\<not> nat (?cr - i) * nat ?cc \<le> b"
      proof
        assume "nat (?cr - i) * nat ?cc \<le> b"
        moreover have "nat (?cr - i) = Suc k" using Suc.hyps(2) by simp
        ultimately show False using True by simp
      qed
      then show ?thesis unfolding eq using False by simp
    next
      case F2: False
      then have eq: "resize_copy_rows T m C2 ?cr ?cc i nd b =
                   resize_copy_rows T m C2 ?cr ?cc (i + 1) ?nd1 (b - nat ?cc)"
        using unfold False by simp
      have "nat (?cr - (i + 1)) * nat ?cc \<le> b - nat ?cc"
        if "nat (?cr - i) * nat ?cc \<le> b"
      proof -
        have "nat (?cr - i) = Suc (nat (?cr - (i + 1)))" using Suc.hyps(2) k by simp
        then have "nat ?cc + nat (?cr - (i + 1)) * nat ?cc \<le> b" using that by simp
        then show ?thesis by linarith
      qed
      then show ?thesis unfolding eq using IH [of "b - nat ?cc"] comb False by blast
    qed
  qed
qed


lemma resize_impl_same:
  "0 \<le> m_rows m \<Longrightarrow> 0 \<le> m_cols m \<Longrightarrow>
   resize_impl T env (m_rows m) (m_cols m) fv m = Returned () m"
  by (simp add: resize_impl_def validate_dimension_def)

lemma resize_impl_zero:
  assumes "0 \<le> r2" "r2 \<le> INT_MAX" "0 \<le> c2" "c2 \<le> INT_MAX"
    "\<not> (r2 = m_rows m \<and> c2 = m_cols m)" "r2 * c2 = 0"
  shows "resize_impl T env r2 c2 fv m =
           Returned () \<lparr>m_rows = r2, m_cols = c2, m_data = []\<rparr>"
proof -
  have "r2 = 0 \<or> c2 = 0" using assms(6) by simp
  then have "calculate_size Idx_int r2 c2 = Returned 0 ()"
    using assms by (intro calculate_size_zero) simp_all
  then show ?thesis
    using assms by (auto simp: resize_impl_def validate_dimension_def)
qed

lemma resize_impl_grow:
  assumes "0 < r2" "r2 \<le> INT_MAX" "0 < c2" "c2 \<le> INT_MAX"
    "\<not> (r2 = m_rows m \<and> c2 = m_cols m)"
  shows "resize_impl T env r2 c2 fv m =
    (if int UINT_MOD \<le> r2 * c2 then Raised (Overflow ''Matrix size calculation overflow'') m
     else if nat (r2 * c2) > max_alloc env then Raised BadAlloc m
     else if elem_budget env < nat (r2 * c2) then Raised ElementThrew m
     else if m_rows m > 0 \<and> m_cols m > 0 then
       (case resize_copy_rows T m c2 (min (m_rows m) r2) (min (m_cols m) c2) 0
               (replicate (nat (r2 * c2)) (case fv of Some v \<Rightarrow> v | None \<Rightarrow> default_value T))
               (elem_budget env - nat (r2 * c2)) of
          Returned u nd' \<Rightarrow> Returned () \<lparr>m_rows = r2, m_cols = c2, m_data = nd'\<rparr>
        | Raised e s \<Rightarrow> Raised e m
        | Undefined \<Rightarrow> Undefined)
     else Returned () \<lparr>m_rows = r2, m_cols = c2,
            m_data = replicate (nat (r2 * c2))
                       (case fv of Some v \<Rightarrow> v | None \<Rightarrow> default_value T)\<rparr>)"
proof -
  have p: "0 < r2 * c2" using assms by simp
  then have nz: "nat (r2 * c2) \<noteq> 0" by simp
  have c: "(r2 = m_rows m \<and> c2 = m_cols m) = False" using assms(5) by simp
  have v: "0 \<le> r2" "0 \<le> c2" "\<not> r2 < 0" "\<not> c2 < 0" using assms by simp_all
  have nd: "(case fv of Some v \<Rightarrow> replicate n v | None \<Rightarrow> vector_resize [] n (default_value T))
        = replicate n (case fv of Some v \<Rightarrow> v | None \<Rightarrow> default_value T)" for n
    by (cases fv) (simp_all add: vector_resize_def)
  show ?thesis
  proof (cases "int UINT_MOD \<le> r2 * c2")
    case True
    then have "calculate_size Idx_int r2 c2 =
                 Raised (Overflow ''Matrix size calculation overflow'') ()"
      using assms by (simp add: calculate_size_pos)
    then show ?thesis using True
      by (simp add: resize_impl_def validate_dimension_def c v)
  next
    case False
    then have "calculate_size Idx_int r2 c2 = Returned (nat (r2 * c2)) ()"
      using assms by (simp add: calculate_size_pos)
    then show ?thesis using False nz
      by (simp add: resize_impl_def validate_dimension_def Let_def nd c v)
  qed
qed

lemma resize_impl_cells:
  assumes wf: "wf m" and d: "0 < r2" "r2 \<le> INT_MAX" "0 < c2" "c2 \<le> INT_MAX"
    and ne: "\<not> (r2 = m_rows m \<and> c2 = m_cols m)"
    and ret: "resize_impl T env r2 c2 fv m = Returned () m'"
  shows "m_rows m' = r2 \<and> m_cols m' = c2 \<and> wf m' \<and>
         (\<forall>i j. 0 \<le> i \<and> i < r2 \<and> 0 \<le> j \<and> j < c2 \<longrightarrow>
            op_call m' i j =
              (if i < min (m_rows m) r2 \<and> j < min (m_cols m) c2 then op_call m i j
               else Some (case fv of Some v \<Rightarrow> v | None \<Rightarrow> default_value T)))"
proof -
  let ?fill = "case fv of Some v \<Rightarrow> v | None \<Rightarrow> default_value T"
  let ?n = "nat (r2 * c2)"
  let ?nd = "replicate ?n ?fill"
  note g = resize_impl_grow [OF d ne, of T env fv]
  have fit: "r2 * c2 < int UINT_MOD"
    using g ret by (auto split: if_splits)
  have p: "0 < r2 * c2" using d by simp
  have len: "int (length ?nd) = r2 * c2" using p by simp
  have nlt: "?n < UINT_MOD" using fit p by (simp add: nat_less_iff)
  have w: "0 \<le> m_rows m" "0 \<le> m_cols m" using wf by (simp_all add: wf_def)
  have fillcell: "?nd ! nat (i * c2 + j) = ?fill" if "0 \<le> i" "i < r2" "0 \<le> j" "j < c2" for i j
  proof -
    have "i * c2 + j < r2 * c2" using that by (intro offset_bound)
    moreover have "0 \<le> i * c2 + j" using that d by simp
    ultimately have "nat (i * c2 + j) < ?n" by linarith
    then show ?thesis by simp
  qed
  show ?thesis
  proof (cases "m_rows m > 0 \<and> m_cols m > 0")
    case True
    let ?res = "resize_copy_rows T m c2 (min (m_rows m) r2) (min (m_cols m) c2) 0 ?nd
                  (elem_budget env - ?n)"
    from g ret fit True obtain u nd' where res: "?res = Returned u nd'"
      and m': "m' = \<lparr>m_rows = r2, m_cols = c2, m_data = nd'\<rparr>"
      by (auto split: if_splits outcome.splits)
    have spec: "length nd' = length ?nd \<and>
              (\<forall>r c. 0 \<le> r \<and> r < r2 \<and> 0 \<le> c \<and> c < c2 \<longrightarrow>
                 nd' ! nat (r * c2 + c) =
                   (if 0 \<le> r \<and> r < min (m_rows m) r2 \<and> c < min (m_cols m) c2
                    then m_data m ! nat (r * m_cols m + c) else ?nd ! nat (r * c2 + c)))"
      using resize_copy_rows_spec [OF wf d(1) d(3) fit d(2) d(4) len, of 0 T "elem_budget env - ?n"]
      unfolding res by simp
    have len': "length nd' = ?n" using spec by simp
    have wf': "wf m'"
      using d p nlt by (simp add: wf_def m' len')
    have cell: "op_call m' i j =
              (if i < min (m_rows m) r2 \<and> j < min (m_cols m) c2 then op_call m i j
               else Some ?fill)"
      if ij: "0 \<le> i \<and> i < r2 \<and> 0 \<le> j \<and> j < c2" for i j
    proof -
      have "op_call m' i j = Some (nd' ! nat (i * c2 + j))"
        using op_call_valid [OF wf', of i j] ij by (simp add: m')
      also have "nd' ! nat (i * c2 + j) =
          (if i < min (m_rows m) r2 \<and> j < min (m_cols m) c2
           then m_data m ! nat (i * m_cols m + j) else ?nd ! nat (i * c2 + j))"
        using spec ij by simp
      finally have a: "op_call m' i j = Some (if i < min (m_rows m) r2 \<and> j < min (m_cols m) c2
           then m_data m ! nat (i * m_cols m + j) else ?nd ! nat (i * c2 + j))" .
      show ?thesis
      proof (cases "i < min (m_rows m) r2 \<and> j < min (m_cols m) c2")
        case T: True
        then have "op_call m i j = Some (m_data m ! nat (i * m_cols m + j))"
          using ij by (intro op_call_valid [OF wf]) simp_all
        moreover have "op_call m' i j = Some (m_data m ! nat (i * m_cols m + j))"
          using a unfolding if_P [OF T] .
        ultimately show ?thesis unfolding if_P [OF T] by simp
      next
        case False
        have "op_call m' i j = Some (?nd ! nat (i * c2 + j))"
          using a unfolding if_not_P [OF False] .
        then show ?thesis unfolding if_not_P [OF False] using fillcell [of i j] ij by simp
      qed
    qed
    show ?thesis using wf' cell by (simp add: m')
  next
    case False
    then have m': "m' = \<lparr>m_rows = r2, m_cols = c2, m_data = ?nd\<rparr>"
      using g ret fit by (auto split: if_splits)
    have wf': "wf m'"
      using d p nlt by (simp add: wf_def m')
    have z: "m_rows m = 0 \<or> m_cols m = 0" using False w by linarith
    have cell: "op_call m' i j =
              (if i < min (m_rows m) r2 \<and> j < min (m_cols m) c2 then op_call m i j
               else Some ?fill)"
      if ij: "0 \<le> i \<and> i < r2 \<and> 0 \<le> j \<and> j < c2" for i j
    proof -
      have "op_call m' i j = Some (?nd ! nat (i * c2 + j))"
        using op_call_valid [OF wf', of i j] ij by (simp add: m')
      moreover have neg: "\<not> (i < min (m_rows m) r2 \<and> j < min (m_cols m) c2)"
        using z ij by auto
      ultimately show ?thesis unfolding if_not_P [OF neg] using fillcell [of i j] ij by simp
    qed
    show ?thesis using wf' cell by (simp add: m')
  qed
qed

lemma resize_impl_total:
  assumes wf: "wf m" and d: "0 \<le> r2" "r2 \<le> INT_MAX" "0 \<le> c2" "c2 \<le> INT_MAX"
    and fit: "r2 * c2 < int UINT_MOD" "nat (r2 * c2) \<le> max_alloc env"
      "2 * nat (r2 * c2) \<le> elem_budget env"
  shows "\<exists>m'. resize_impl T env r2 c2 fv m = Returned () m'"
proof (cases "r2 = m_rows m \<and> c2 = m_cols m")
  case True
  then show ?thesis using resize_impl_same [of m T env fv] d by auto
next
  case ne: False
  show ?thesis
  proof (cases "r2 * c2 = 0")
    case True
    then show ?thesis using resize_impl_zero [OF d ne True] by blast
  next
    case False
    then have pos: "0 < r2" "0 < c2" using d by (auto simp: less_le)
    let ?fill = "case fv of Some v \<Rightarrow> v | None \<Rightarrow> default_value T"
    let ?n = "nat (r2 * c2)"
    let ?nd = "replicate ?n ?fill"
    note g = resize_impl_grow [OF pos(1) d(2) pos(2) d(4) ne, of T env fv]
    have len: "int (length ?nd) = r2 * c2" using pos by simp
    have w: "0 \<le> m_rows m" "0 \<le> m_cols m" using wf by (simp_all add: wf_def)
    have "nat (min (m_rows m) r2) * nat (min (m_cols m) c2) \<le> nat r2 * nat c2"
      by (intro mult_le_mono) simp_all
    also have "\<dots> = ?n" using pos by (simp add: nat_mult_distrib)
    finally have "nat (min (m_rows m) r2) * nat (min (m_cols m) c2) \<le> elem_budget env - ?n"
      using fit(3) by linarith
    then have "nat (min (m_rows m) r2 - 0) * nat (min (m_cols m) c2) \<le> elem_budget env - ?n"
      by simp
    then obtain nd' where
      "resize_copy_rows T m c2 (min (m_rows m) r2) (min (m_cols m) c2) 0 ?nd
         (elem_budget env - ?n) = Returned () nd'"
      using resize_copy_rows_spec [OF wf pos fit(1) d(2) d(4) len, of 0 T "elem_budget env - ?n"]
      by blast
    then show ?thesis using g fit by simp
  qed
qed

lemma resize_impl_raise_unchanged:
  "resize_impl T env r2 c2 fv m = Raised e s \<Longrightarrow> s = m"
  by (auto simp: resize_impl_def Let_def split: sum.splits if_splits outcome.splits)



text \<open>
  Claim C4. Whatever exception a resize raises (InvalidArgument for a negative dimension,
  Overflow from the size computation, a failed allocation, or an exception of the element
  type while the new buffer is built or while the old rows are copied into it), the
  container is left in the state it had before the call: the new buffer and dimensions are
  stored only on the paths that return.
\<close>

theorem resize_strong_exception_safety:
  "(resize_impl T env r2 c2 fv m = Raised e s \<longrightarrow> s = m) \<and>
   (resize T env r2 c2 m = Raised e s \<longrightarrow> s = m) \<and>
   (resize_value T env r2 c2 v m = Raised e s \<longrightarrow> s = m)"
  using resize_impl_raise_unchanged [of T env r2 c2 fv m e s]
    resize_impl_raise_unchanged [of T env r2 c2 None m e s]
    resize_impl_raise_unchanged [of T env r2 c2 "Some v" m e s]
  by (simp add: resize_def resize_value_def)

theorem resize_strong_exception_safety_witness:
  "resize int_elem no_faults (- 1) 5 example_2x3 =
     Raised (InvalidArgument ''new_rows must be non-negative'') example_2x3 \<and>
   resize int_elem no_faults 65536 65536 example_2x3 =
     Raised (Overflow ''Matrix size calculation overflow'') example_2x3 \<and>
   resize int_elem \<lparr>max_alloc = 10, elem_budget = 100\<rparr> 4 4 example_2x3 =
     Raised BadAlloc example_2x3 \<and>
   resize throwing_elem \<lparr>max_alloc = 100, elem_budget = 5\<rparr> 5 5 example_2x3 =
     Raised ElementThrew example_2x3 \<and>
   resize_value throwing_elem \<lparr>max_alloc = 100, elem_budget = 26\<rparr> 5 5 7 example_2x3 =
     Raised ElementThrew example_2x3"
proof -
  have sz: "calculate_size Idx_int 4 4 = Returned 16 ()"
    "calculate_size Idx_int 5 5 = Returned 25 ()"
    "calculate_size Idx_int 65536 65536 =
       Raised (Overflow ''Matrix size calculation overflow'') ()"
    by (simp_all add: calculate_size_int to_size_type_def UINT_MOD_def)
  have a: "\<exists>s. resize int_elem no_faults (- 1) 5 example_2x3 =
             Raised (InvalidArgument ''new_rows must be non-negative'') s"
    by (simp add: resize_def resize_impl_def validate_dimension_def)
  have b: "\<exists>s. resize int_elem no_faults 65536 65536 example_2x3 =
             Raised (Overflow ''Matrix size calculation overflow'') s"
    by (simp add: resize_def resize_impl_def validate_dimension_def sz example_2x3_def)
  have c: "\<exists>s. resize int_elem \<lparr>max_alloc = 10, elem_budget = 100\<rparr> 4 4 example_2x3 =
             Raised BadAlloc s"
    by (simp add: resize_def resize_impl_def validate_dimension_def sz example_2x3_def)
  have d: "\<exists>s. resize throwing_elem \<lparr>max_alloc = 100, elem_budget = 5\<rparr> 5 5 example_2x3 =
             Raised ElementThrew s"
    by (simp add: resize_def resize_impl_def validate_dimension_def sz example_2x3_def)
  have e: "\<exists>s. resize_value throwing_elem \<lparr>max_alloc = 100, elem_budget = 26\<rparr> 5 5 7
                 example_2x3 = Raised ElementThrew s"
    by (simp add: resize_value_def resize_impl_def validate_dimension_def sz example_2x3_def
        resize_copy_rows.simps throwing_elem_def to_size_type_def UINT_MOD_def)
  show ?thesis
    using a b c d e resize_strong_exception_safety by metis
qed

subsection \<open>The shape invariant\<close>

lemma wf_size: "wf m \<Longrightarrow> int (size_arr m) = rows m * cols m"
  by (simp add: wf_def size_arr_def rows_def cols_def)

lemma wf_same_shape: "wf a \<Longrightarrow> same_shape a b \<Longrightarrow> wf b"
  by (simp add: wf_def same_shape_def)

lemma same_shape_refl: "same_shape a a"
  by (simp add: same_shape_def)

lemma same_shape_trans: "same_shape a b \<Longrightarrow> same_shape b c \<Longrightarrow> same_shape a c"
  by (simp add: same_shape_def)

lemma wf_default: "wf array2d_default"
  by (simp add: wf_def array2d_default_def INT_MAX_def UINT_MOD_def)

lemma calculate_size_Returned:
  assumes "0 \<le> r" "r \<le> INT_MAX" "0 \<le> c" "c \<le> INT_MAX"
    "calculate_size Idx_int r c = Returned n u"
  shows "int n = r * c \<and> n < UINT_MOD"
proof (cases "r = 0 \<or> c = 0")
  case True
  then have "calculate_size Idx_int r c = Returned 0 ()"
    using assms by (intro calculate_size_zero) simp_all
  then show ?thesis using assms(5) True by (auto simp: UINT_MOD_def)
next
  case False
  then have pos: "0 < r" "0 < c" using assms by simp_all
  have fit: "r * c < int UINT_MOD" and n: "n = nat (r * c)"
    using calculate_size_pos [OF pos(1) assms(2) pos(2) assms(4)] assms(5)
    by (auto split: if_splits)
  have "0 < r * c" using pos by simp
  then show ?thesis using fit n by (simp add: nat_less_iff)
qed

lemma wf_array2d_dims:
  assumes "is_index r" "is_index c" "array2d_dims Idx_int T env r c = Returned m u"
  shows "wf m"
proof -
  have b: "r \<le> INT_MAX" "c \<le> INT_MAX" using assms by (simp_all add: is_index_def)
  have nn: "0 \<le> r" "0 \<le> c"
    using assms(3) by (auto simp: array2d_dims_def validate_dimension_def split: if_splits)
  show ?thesis
  proof (cases "r > 0 \<and> c > 0")
    case True
    then obtain n where n: "calculate_size Idx_int r c = Returned n ()"
      and m: "m = \<lparr>m_rows = r, m_cols = c, m_data = vector_resize [] n (default_value T)\<rparr>"
      using assms(3) nn
      by (auto simp: array2d_dims_def validate_dimension_def split: outcome.splits if_splits)
    show ?thesis using calculate_size_Returned [OF nn(1) b(1) nn(2) b(2) n] nn b
      by (simp add: wf_def m vector_resize_def)
  next
    case False
    then have z: "r * c = 0" using nn by auto
    have m: "m = \<lparr>m_rows = r, m_cols = c, m_data = []\<rparr>"
      using assms(3) nn False
      by (auto simp: array2d_dims_def validate_dimension_def split: if_splits)
    show ?thesis using nn b z by (simp add: wf_def m UINT_MOD_def)
  qed
qed

lemma wf_array2d_value:
  assumes "is_index r" "is_index c" "array2d_value env r c v = Returned m u"
  shows "wf m"
proof -
  have b: "r \<le> INT_MAX" "c \<le> INT_MAX" using assms by (simp_all add: is_index_def)
  have nn: "0 \<le> r" "0 \<le> c"
    using assms(3) by (auto simp: array2d_value_def validate_dimension_def split: if_splits)
  show ?thesis
  proof (cases "r > 0 \<and> c > 0")
    case True
    then obtain n where n: "calculate_size Idx_int r c = Returned n ()"
      and m: "m = \<lparr>m_rows = r, m_cols = c, m_data = vector_resize [] n v\<rparr>"
      using assms(3) nn
      by (auto simp: array2d_value_def validate_dimension_def split: outcome.splits if_splits)
    show ?thesis using calculate_size_Returned [OF nn(1) b(1) nn(2) b(2) n] nn b
      by (simp add: wf_def m vector_resize_def)
  next
    case False
    then have z: "r * c = 0" using nn by auto
    have m: "m = \<lparr>m_rows = r, m_cols = c, m_data = []\<rparr>"
      using assms(3) nn False
      by (auto simp: array2d_value_def validate_dimension_def split: if_splits)
    show ?thesis using nn b z by (simp add: wf_def m UINT_MOD_def)
  qed
qed

lemma wf_array2d_container:
  assumes "is_index r" "is_index c" "array2d_container env r c xs = Returned m u"
  shows "wf m"
proof -
  have b: "r \<le> INT_MAX" "c \<le> INT_MAX" using assms by (simp_all add: is_index_def)
  have nn: "0 \<le> r" "0 \<le> c"
    using assms(3) by (auto simp: array2d_container_def validate_dimension_def split: if_splits)
  obtain n where n: "calculate_size Idx_int r c = Returned n ()" and len: "length xs = n"
    and m: "m = \<lparr>m_rows = r, m_cols = c, m_data = xs\<rparr>"
    using assms(3) nn
    by (auto simp: array2d_container_def validate_dimension_def
             split: outcome.splits if_splits)
  show ?thesis using calculate_size_Returned [OF nn(1) b(1) nn(2) b(2) n] nn b
    by (simp add: wf_def m len)
qed

lemma to_index_type_small: "n \<le> nat INT_MAX \<Longrightarrow> to_index_type n = int n"
  by (simp add: to_index_type_def INT_MAX_def UINT_MOD_def Let_def)

lemma length_concat_uniform:
  "\<forall>row \<in> set xss. length row = c \<Longrightarrow> length (concat xss) = length xss * c"
  by (induction xss) simp_all

lemma wf_array2d_init:
  assumes "length init_list \<le> nat INT_MAX"
    "\<forall>row \<in> set init_list. length row \<le> nat INT_MAX"
    "array2d_init env init_list = Returned m u"
  shows "wf m"
proof (cases "init_list = []")
  case True
  then have "m = \<lparr>m_rows = 0, m_cols = 0, m_data = []\<rparr>"
    using assms(3) by (simp add: array2d_init_def)
  then show ?thesis by (simp add: wf_def INT_MAX_def UINT_MOD_def)
next
  case False
  let ?r = "int (length init_list)" and ?c = "int (length (hd init_list))"
  have hd: "hd init_list \<in> set init_list" using False by simp
  have r: "to_index_type (length init_list) = ?r"
    using assms(1) by (rule to_index_type_small)
  have c: "to_index_type (length (hd init_list)) = ?c"
    using assms(2) hd by (intro to_index_type_small) blast
  have rows: "\<And>row. row \<in> set init_list \<Longrightarrow> to_index_type (length row) = int (length row)"
    using assms(2) by (intro to_index_type_small) blast
  have ex: "list_ex (\<lambda>row. to_index_type (length row) \<noteq> ?c) init_list
              = (\<exists>row \<in> set init_list. length row \<noteq> length (hd init_list))"
    using rows by (auto simp: list_ex_iff)
  let ?body = "case calculate_size Idx_int ?r ?c of
      Raised e u \<Rightarrow> Raised e ()
    | Undefined \<Rightarrow> Undefined
    | Returned sz u \<Rightarrow>
        if sz > max_alloc env \<or> length (concat init_list) > max_alloc env
        then Raised BadAlloc ()
        else if elem_budget env < length (concat init_list)
        then Raised ElementThrew ()
        else Returned \<lparr>m_rows = ?r, m_cols = ?c, m_data = concat init_list\<rparr> ()"
  have df: "array2d_init env init_list =
      (if \<exists>row \<in> set init_list. length row \<noteq> length (hd init_list)
       then Raised (InvalidArgument ''All rows must have the same number of columns'') ()
       else ?body)"
    using False by (simp add: array2d_init_def r c ex Let_def)
  have uni: "\<forall>row \<in> set init_list. length row = length (hd init_list)"
  proof (rule ccontr)
    assume "\<not> ?thesis"
    then have "\<exists>row \<in> set init_list. length row \<noteq> length (hd init_list)" by blast
    then show False using df assms(3) by simp
  qed
  then have df2: "array2d_init env init_list = ?body"
    using df by simp
  obtain n where n: "calculate_size Idx_int ?r ?c = Returned n ()"
    and m: "m = \<lparr>m_rows = ?r, m_cols = ?c, m_data = concat init_list\<rparr>"
    using df2 assms(3)
    by (cases "calculate_size Idx_int ?r ?c") (auto split: if_splits)
  have b: "?r \<le> INT_MAX" "?c \<le> INT_MAX"
    using assms(1) assms(2) hd by (auto simp: INT_MAX_def)
  have len: "length (concat init_list) = length init_list * length (hd init_list)"
    using uni by (rule length_concat_uniform)
  have "int n = ?r * ?c \<and> n < UINT_MOD"
    using b n by (intro calculate_size_Returned) simp_all
  then have "n = length init_list * length (hd init_list)" "n < UINT_MOD"
    by (simp_all add: of_nat_mult [symmetric] del: of_nat_mult)
  then show ?thesis using b by (simp add: wf_def m len)
qed

lemma wf_fill: "wf m \<Longrightarrow> wf (fill T v m)"
  by (simp add: fill_eq wf_def)

lemma wf_fill_parallel: "wf m \<Longrightarrow> wf (fill_parallel T sched v m)"
proof (cases "length (m_data m) > 10000")
  case True
  assume "wf m"
  then show ?thesis using True by (simp add: fill_parallel_def wf_def par_fill_length)
next
  case False
  assume "wf m"
  then show ?thesis using False by (simp add: fill_parallel_def wf_fill)
qed

lemma reset_same_shape: "same_shape m (reset T opt m)"
  by (cases "m_data m = []")
     (simp_all add: reset_def same_shape_def memset_elems_def std_fill_length)

lemma wf_reset: "wf m \<Longrightarrow> wf (reset T opt m)"
  using reset_same_shape wf_same_shape by blast

lemma swap_rows_loop_length:
  "swap_rows_loop xs o1 o2 n i = Some ys \<Longrightarrow> length ys = length xs"
proof (induction xs o1 o2 n i rule: swap_rows_loop.induct)
  case (1 xs offset1 offset2 swap_size i)
  show ?case
  proof (cases "i < swap_size")
    case True
    let ?a = "(offset1 + i) mod UINT_MOD" and ?b = "(offset2 + i) mod UINT_MOD"
    from "1.prems" True have ok: "?a < length xs \<and> ?b < length xs"
      by (subst (asm) swap_rows_loop.simps) (auto simp: Let_def split: if_splits)
    then have "swap_rows_loop (xs[?a := xs ! ?b, ?b := xs ! ?a]) offset1 offset2 swap_size (Suc i)
                 = Some ys"
      using "1.prems" True by (subst (asm) swap_rows_loop.simps) (simp add: Let_def)
    then have "length ys = length (xs[?a := xs ! ?b, ?b := xs ! ?a])"
      using True ok by (intro "1.IH") simp_all
    then show ?thesis by simp
  next
    case False
    then show ?thesis using "1.prems" by (subst (asm) swap_rows_loop.simps) simp
  qed
qed

lemma wf_swap_rows:
  assumes "wf m" "swap_rows r1 r2 m = Returned u m'"
  shows "wf m'"
proof (cases "r1 = r2")
  case True
  then show ?thesis using assms by (simp add: swap_rows_def)
next
  case False
  then obtain xs where l: "swap_rows_loop (m_data m) (calculate_offset m r1 0)
       (calculate_offset m r2 0) (to_size_type (m_cols m)) 0 = Some xs"
    and m': "m' = m\<lparr>m_data := xs\<rparr>"
    using assms(2) by (auto simp: swap_rows_def split: option.splits)
  have "length xs = length (m_data m)" using l by (rule swap_rows_loop_length)
  then show ?thesis using assms(1) by (simp add: wf_def m')
qed

lemma wf_fill_row:
  assumes "wf m" "fill_row r v m = Returned u m'"
  shows "wf m'"
proof -
  have "m' = m \<or> (\<exists>a b. m' = m\<lparr>m_data := std_fill (m_data m) a b v\<rparr>)"
    using assms(2) by (auto simp: fill_row_def Let_def split: if_splits)
  then show ?thesis using assms(1) by (auto simp: wf_def std_fill_length)
qed

lemma wf_copy_row:
  assumes "wf m" "copy_row T s d m = Returned u m'"
  shows "wf m'"
proof -
  have "m' = m \<or> (\<exists>a n b. m' = m\<lparr>m_data := copy_n_within (m_data m) a n b\<rparr>)"
  proof (cases "s = d")
    case True
    then show ?thesis using assms(2) by (simp add: copy_row_def)
  next
    case False
    show ?thesis
    proof (cases "trivially_copyable T")
      case True
      then show ?thesis using assms(2) False
        by (auto simp: copy_row_def Let_def memcpy_within_def split: if_splits)
    next
      case F: False
      then show ?thesis using assms(2) False
        by (auto simp: copy_row_def Let_def split: if_splits)
    qed
  qed
  then show ?thesis using assms(1) by (auto simp: wf_def copy_n_within_length)
qed

lemma ptr_write_same_shape: "ptr_write m p k v = Some m' \<Longrightarrow> same_shape m m'"
  by (auto simp: ptr_write_def same_shape_def Let_def split: if_splits)

lemma transposed_bj_same_shape:
  "transposed_bj this bi j_end bj result = Returned u r' \<Longrightarrow> same_shape result r'"
proof (induction this bi j_end bj result rule: transposed_bj.induct)
  case (1 this bi j_end bj result)
  show ?case
  proof (cases "bj < j_end")
    case True
    from "1.prems" True obtain v result' where
      rd: "ptr_read this (op_index this bi) bj = Some v"
      and wr: "ptr_write result (op_index result bj) bi v = Some result'"
      and rec: "transposed_bj this bi j_end (bj + 1) result' = Returned u r'"
      by (subst (asm) transposed_bj.simps) (auto split: option.splits)
    have "same_shape result' r'" using True rd wr rec by (rule "1.IH")
    then show ?thesis using ptr_write_same_shape [OF wr] same_shape_trans by blast
  next
    case False
    then have "r' = result" using "1.prems" by (subst (asm) transposed_bj.simps) simp
    then show ?thesis by (simp add: same_shape_refl)
  qed
qed

lemma transposed_bj_not_raised:
  "transposed_bj this bi j_end bj result \<noteq> Raised e s"
proof (induction this bi j_end bj result rule: transposed_bj.induct)
  case (1 this bi j_end bj result)
  show ?case
  proof (cases "bj < j_end")
    case True
    show ?thesis
    proof (cases "ptr_read this (op_index this bi) bj")
      case None
      then show ?thesis using True by (subst transposed_bj.simps) simp
    next
      case (Some v)
      show ?thesis
      proof (cases "ptr_write result (op_index result bj) bi v")
        case None
        then show ?thesis using True Some by (subst transposed_bj.simps) simp
      next
        case (Some result')
        then show ?thesis using True \<open>ptr_read this (op_index this bi) bj = Some v\<close> "1.IH"
          by (subst transposed_bj.simps) simp
      qed
    qed
  next
    case False
    then show ?thesis by (subst transposed_bj.simps) simp
  qed
qed

lemma transposed_bi_same_shape:
  "transposed_bi this i_end j j_end bi result = Returned u r' \<Longrightarrow> same_shape result r'"
proof (induction this i_end j j_end bi result rule: transposed_bi.induct)
  case (1 this i_end j j_end bi result)
  show ?case
  proof (cases "bi < i_end")
    case True
    from "1.prems" True obtain u1 result' where
      a: "transposed_bj this bi j_end j result = Returned u1 result'"
      and rec: "transposed_bi this i_end j j_end (bi + 1) result' = Returned u r'"
      by (subst (asm) transposed_bi.simps) (auto split: outcome.splits)
    have "same_shape result' r'" using True a rec by (rule "1.IH")
    then show ?thesis using transposed_bj_same_shape [OF a] same_shape_trans by blast
  next
    case False
    then have "r' = result" using "1.prems" by (subst (asm) transposed_bi.simps) simp
    then show ?thesis by (simp add: same_shape_refl)
  qed
qed

lemma transposed_bi_not_raised:
  "transposed_bi this i_end j j_end bi result \<noteq> Raised e s"
proof (induction this i_end j j_end bi result rule: transposed_bi.induct)
  case (1 this i_end j j_end bi result)
  show ?case
  proof (cases "bi < i_end")
    case True
    show ?thesis
    proof (cases "transposed_bj this bi j_end j result")
      case (Returned u1 result')
      then show ?thesis using True "1.IH" by (subst transposed_bi.simps) simp
    next
      case (Raised e' s')
      then show ?thesis using transposed_bj_not_raised by blast
    next
      case Undefined
      then show ?thesis using True by (subst transposed_bi.simps) simp
    qed
  next
    case False
    then show ?thesis by (subst transposed_bi.simps) simp
  qed
qed

lemma transposed_j_same_shape:
  "transposed_j bs this i i_end j result = Some y \<Longrightarrow>
   (\<forall>u r'. y = Returned u r' \<longrightarrow> same_shape result r') \<and> (\<forall>e s. y \<noteq> Raised e s)"
proof (induction rule: transposed_j.raw_induct [rotated -1, consumes 1, case_names 1])
  case (1 transposed_j' bs this i i_end j result y)
  show ?case
  proof (cases "j < m_cols this \<and> \<not> INT_MAX < j + to_index_type bs")
    case True
    show ?thesis
    proof (cases "transposed_bi this i_end j (min (j + to_index_type bs) (m_cols this)) i result")
      case (Returned u1 result')
      have c1: "j < m_cols this" and c2: "\<not> INT_MAX < j + to_index_type bs"
        using True by simp_all
      have "transposed_j' bs this i i_end (index_plus_size j bs) result' = Some y"
        using "1.hyps" unfolding if_P [OF c1] if_not_P [OF c2] Returned outcome.case .
      then have "(\<forall>u r'. y = Returned u r' \<longrightarrow> same_shape result' r') \<and>
                 (\<forall>e s. y \<noteq> Raised e s)"
        by (rule "1.IH")
      then show ?thesis
        using transposed_bi_same_shape [OF Returned] same_shape_trans by blast
    next
      case (Raised e' s')
      then show ?thesis using transposed_bi_not_raised by blast
    next
      case Undefined
      then show ?thesis using "1.hyps" True by auto
    qed
  next
    case False
    then have "y = Undefined \<or> y = Returned () result"
      using "1.hyps" by (auto split: if_splits)
    then show ?thesis by (auto simp: same_shape_refl)
  qed
qed

lemma transposed_i_same_shape:
  "transposed_i bs this i result = Some y \<Longrightarrow>
   (\<forall>u r'. y = Returned u r' \<longrightarrow> same_shape result r') \<and> (\<forall>e s. y \<noteq> Raised e s)"
proof (induction rule: transposed_i.raw_induct [rotated -1, consumes 1, case_names 1])
  case (1 transposed_i' bs this i result y)
  show ?case
  proof (cases "i < m_rows this \<and> \<not> INT_MAX < i + to_index_type bs")
    case True
    show ?thesis
    proof (cases "transposed_j bs this i (min (i + to_index_type bs) (m_rows this)) 0 result")
      case None
      then show ?thesis using "1.hyps" True by simp
    next
      case (Some z)
      note js = transposed_j_same_shape [OF Some]
      show ?thesis
      proof (cases z)
        case (Returned u1 result')
        have c1: "i < m_rows this" and c2: "\<not> INT_MAX < i + to_index_type bs"
          using True by simp_all
        have "transposed_i' bs this (index_plus_size i bs) result' = Some y"
          using "1.hyps"
          unfolding if_P [OF c1] if_not_P [OF c2] Some Returned option.case outcome.case .
        then have "(\<forall>u r'. y = Returned u r' \<longrightarrow> same_shape result' r') \<and>
                   (\<forall>e s. y \<noteq> Raised e s)"
          by (rule "1.IH")
        then show ?thesis using js Returned same_shape_trans by blast
      next
        case (Raised e' s')
        then show ?thesis using js by blast
      next
        case Undefined
        then show ?thesis using "1.hyps" True Some by auto
      qed
    qed
  next
    case False
    then have "y = Undefined \<or> y = Returned () result"
      using "1.hyps" by (auto split: if_splits)
    then show ?thesis by (auto simp: same_shape_refl)
  qed
qed

lemma transposed_shape:
  assumes "wf this" "transposed T env this = Some y"
  shows "(\<forall>r s. y = Returned r s \<longrightarrow> s = this \<and> wf r \<and>
             m_rows r = m_cols this \<and> m_cols r = m_rows this) \<and>
         (\<forall>e s. y = Raised e s \<longrightarrow> s = this)"
proof (cases "array2d_dims Idx_int T env (m_cols this) (m_rows this)")
  case (Raised e u)
  then show ?thesis using assms(2) by (auto simp: transposed_def)
next
  case Undefined
  then show ?thesis using assms(2) by (auto simp: transposed_def)
next
  case ctor: (Returned result u0)
  have idx: "is_index (m_cols this)" "is_index (m_rows this)"
    using assms(1) by (simp_all add: wf_def is_index_def INT_MIN_def)
  have wr: "wf result" using idx ctor by (rule wf_array2d_dims)
  have dims: "m_rows result = m_cols this" "m_cols result = m_rows this"
    using ctor
    by (auto simp: array2d_dims_def validate_dimension_def split: if_splits outcome.splits)
  show ?thesis
  proof (cases "transposed_i (block_size T) this 0 result")
    case None
    then show ?thesis using assms(2) ctor by (simp add: transposed_def)
  next
    case (Some z)
    note sh = transposed_i_same_shape [OF Some]
    show ?thesis
    proof (cases z)
      case (Returned u r')
      then have y: "y = Returned r' this" using assms(2) ctor Some by (simp add: transposed_def)
      have ss: "same_shape result r'" using sh Returned by blast
      then have "wf r'" using wr wf_same_shape by blast
      then show ?thesis using y ss dims by (simp add: same_shape_def)
    next
      case (Raised e s)
      then show ?thesis using sh by blast
    next
      case Undefined
      then show ?thesis using assms(2) ctor Some by (simp add: transposed_def)
    qed
  qed
qed


lemma swap_elems_same_shape: "swap_elems this bi bj = Some this' \<Longrightarrow> same_shape this this'"
proof -
  assume a: "swap_elems this bi bj = Some this'"
  then obtain x y t1 where w1: "ptr_write this (op_index this bi) bj y = Some t1"
    and w2: "ptr_write t1 (op_index t1 bj) bi x = Some this'"
    by (auto simp: swap_elems_def split: option.splits)
  show ?thesis
    using ptr_write_same_shape [OF w1] ptr_write_same_shape [OF w2] same_shape_trans by blast
qed

lemma transpose_bj_same_shape:
  "transpose_bj bi j_end bj this = y \<Longrightarrow>
   (\<forall>u s. y = Returned u s \<longrightarrow> same_shape this s) \<and> (\<forall>e s. y \<noteq> Raised e s)"
proof (induction bi j_end bj this arbitrary: y rule: transpose_bj.induct)
  case (1 bi j_end bj this)
  show ?case
  proof (cases "bj < j_end")
    case True
    show ?thesis
    proof (cases "swap_elems this bi bj")
      case None
      then have "y = Undefined" using "1.prems" True by (subst (asm) transpose_bj.simps) simp
      then show ?thesis by simp
    next
      case (Some this')
      then have "transpose_bj bi j_end (bj + 1) this' = y"
        using "1.prems" True by (subst (asm) transpose_bj.simps) simp
      then have "(\<forall>u s. y = Returned u s \<longrightarrow> same_shape this' s) \<and> (\<forall>e s. y \<noteq> Raised e s)"
        using True Some by (intro "1.IH")
      then show ?thesis using swap_elems_same_shape [OF Some] same_shape_trans by blast
    qed
  next
    case False
    then have "y = Returned () this" using "1.prems" by (subst (asm) transpose_bj.simps) simp
    then show ?thesis by (simp add: same_shape_refl)
  qed
qed

lemma transpose_bi_same_shape:
  "transpose_bi i i_end j j_end bi this = y \<Longrightarrow>
   (\<forall>u s. y = Returned u s \<longrightarrow> same_shape this s) \<and> (\<forall>e s. y \<noteq> Raised e s)"
proof (induction i i_end j j_end bi this arbitrary: y rule: transpose_bi.induct)
  case (1 i i_end j j_end bi this)
  show ?case
  proof (cases "bi < i_end")
    case True
    note inner = transpose_bj_same_shape
        [of bi j_end "if i = j then bi + 1 else j" this, OF refl]
    show ?thesis
    proof (cases "transpose_bj bi j_end (if i = j then bi + 1 else j) this")
      case (Returned u1 this')
      then have "transpose_bi i i_end j j_end (bi + 1) this' = y"
        using "1.prems" True by (subst (asm) transpose_bi.simps) simp
      then have "(\<forall>u s. y = Returned u s \<longrightarrow> same_shape this' s) \<and> (\<forall>e s. y \<noteq> Raised e s)"
        using True Returned by (intro "1.IH")
      then show ?thesis using inner Returned same_shape_trans by blast
    next
      case (Raised e' s')
      then show ?thesis using inner by blast
    next
      case Undefined
      then have "y = Undefined" using "1.prems" True by (subst (asm) transpose_bi.simps) simp
      then show ?thesis by simp
    qed
  next
    case False
    then have "y = Returned () this" using "1.prems" by (subst (asm) transpose_bi.simps) simp
    then show ?thesis by (simp add: same_shape_refl)
  qed
qed

lemma transpose_j_same_shape:
  "transpose_j bs i i_end j this = Some y \<Longrightarrow>
   (\<forall>u s. y = Returned u s \<longrightarrow> same_shape this s) \<and> (\<forall>e s. y \<noteq> Raised e s)"
proof (induction rule: transpose_j.raw_induct [rotated -1, consumes 1, case_names 1])
  case (1 transpose_j' bs i i_end j this y)
  show ?case
  proof (cases "j < m_cols this \<and> \<not> INT_MAX < j + to_index_type bs")
    case True
    note inner = transpose_bi_same_shape
        [of i i_end j "min (j + to_index_type bs) (m_cols this)" i this, OF refl]
    show ?thesis
    proof (cases "transpose_bi i i_end j (min (j + to_index_type bs) (m_cols this)) i this")
      case (Returned u1 this')
      have c1: "j < m_cols this" and c2: "\<not> INT_MAX < j + to_index_type bs"
        using True by simp_all
      have "transpose_j' bs i i_end (index_plus_size j bs) this' = Some y"
        using "1.hyps" unfolding if_P [OF c1] if_not_P [OF c2] Returned outcome.case .
      then have "(\<forall>u s. y = Returned u s \<longrightarrow> same_shape this' s) \<and> (\<forall>e s. y \<noteq> Raised e s)"
        by (rule "1.IH")
      then show ?thesis using inner Returned same_shape_trans by blast
    next
      case (Raised e' s')
      then show ?thesis using inner by blast
    next
      case Undefined
      then show ?thesis using "1.hyps" True by auto
    qed
  next
    case False
    then have "y = Undefined \<or> y = Returned () this"
      using "1.hyps" by (auto split: if_splits)
    then show ?thesis by (auto simp: same_shape_refl)
  qed
qed

lemma transpose_i_same_shape:
  "transpose_i bs i this = Some y \<Longrightarrow>
   (\<forall>u s. y = Returned u s \<longrightarrow> same_shape this s) \<and> (\<forall>e s. y \<noteq> Raised e s)"
proof (induction rule: transpose_i.raw_induct [rotated -1, consumes 1, case_names 1])
  case (1 transpose_i' bs i this y)
  show ?case
  proof (cases "i < m_rows this \<and> \<not> INT_MAX < i + to_index_type bs")
    case True
    show ?thesis
    proof (cases "transpose_j bs i (min (i + to_index_type bs) (m_rows this)) i this")
      case None
      then show ?thesis using "1.hyps" True by simp
    next
      case (Some z)
      note js = transpose_j_same_shape [OF Some]
      show ?thesis
      proof (cases z)
        case (Returned u1 this')
        have c1: "i < m_rows this" and c2: "\<not> INT_MAX < i + to_index_type bs"
          using True by simp_all
        have "transpose_i' bs (index_plus_size i bs) this' = Some y"
          using "1.hyps"
          unfolding if_P [OF c1] if_not_P [OF c2] Some Returned option.case outcome.case .
        then have "(\<forall>u s. y = Returned u s \<longrightarrow> same_shape this' s) \<and>
                   (\<forall>e s. y \<noteq> Raised e s)"
          by (rule "1.IH")
        then show ?thesis using js Returned same_shape_trans by blast
      next
        case (Raised e' s')
        then show ?thesis using js by blast
      next
        case Undefined
        then show ?thesis using "1.hyps" True Some by auto
      qed
    qed
  next
    case False
    then have "y = Undefined \<or> y = Returned () this"
      using "1.hyps" by (auto split: if_splits)
    then show ?thesis by (auto simp: same_shape_refl)
  qed
qed

lemma transpose_shape:
  assumes "transpose T this = Some y"
  shows "(\<forall>u s. y = Returned u s \<longrightarrow> same_shape this s) \<and>
         (\<forall>e s. y = Raised e s \<longrightarrow> s = this \<and> \<not> is_square this)"
proof (cases "is_square this")
  case True
  then have "transpose_i (block_size T) 0 this = Some y"
    using assms by (simp add: transpose_def)
  then show ?thesis using transpose_i_same_shape by blast
next
  case False
  then show ?thesis using assms by (auto simp: transpose_def)
qed

lemma wf_resize_impl:
  assumes "wf m" "r \<le> INT_MAX" "c \<le> INT_MAX" "resize_impl T env r c fv m = Returned u m'"
  shows "wf m'"
proof -
  have nn: "0 \<le> r" "0 \<le> c"
    using assms(4) by (auto simp: resize_impl_def validate_dimension_def split: if_splits)
  show ?thesis
  proof (cases "r = m_rows m \<and> c = m_cols m")
    case True
    then have "resize_impl T env r c fv m = Returned () m"
      using resize_impl_same [of m T env fv] nn by simp
    then show ?thesis using assms by simp
  next
    case ne: False
    show ?thesis
    proof (cases "r * c = 0")
      case True
      have "resize_impl T env r c fv m = Returned () \<lparr>m_rows = r, m_cols = c, m_data = []\<rparr>"
        using nn(1) assms(2) nn(2) assms(3) ne True by (rule resize_impl_zero)
      then have "m' = \<lparr>m_rows = r, m_cols = c, m_data = []\<rparr>" using assms(4) by simp
      then show ?thesis using nn assms True by (simp add: wf_def UINT_MOD_def)
    next
      case False
      then have pos: "0 < r" "0 < c" using nn by (auto simp: less_le)
      have ret: "resize_impl T env r c fv m = Returned () m'" using assms(4) by simp
      show ?thesis
        using resize_impl_cells [OF assms(1) pos(1) assms(2) pos(2) assms(3) ne ret] by simp
    qed
  qed
qed

lemma same_shape_queries:
  assumes "same_shape a b"
  shows "rows a = rows b \<and> cols a = cols b \<and> size_arr a = size_arr b \<and> (wf a \<longleftrightarrow> wf b)"
  using assms by (auto simp: same_shape_def rows_def cols_def size_arr_def wf_def)

lemma fill_same_shape: "same_shape m (fill T v m)"
  by (simp add: fill_eq same_shape_def)

lemma fill_parallel_same_shape: "same_shape m (fill_parallel T sched v m)"
  by (simp add: fill_parallel_def same_shape_def par_fill_length fill_eq)

lemma copy_row_same_shape:
  assumes "copy_row T s d m = Returned u m'"
  shows "same_shape m m'"
proof -
  have "m' = m \<or> (\<exists>a n b. m' = m\<lparr>m_data := copy_n_within (m_data m) a n b\<rparr>)"
  proof (cases "s = d")
    case True
    then show ?thesis using assms by (simp add: copy_row_def)
  next
    case False
    show ?thesis
    proof (cases "trivially_copyable T")
      case True
      then show ?thesis using assms False
        by (auto simp: copy_row_def Let_def memcpy_within_def split: if_splits)
    next
      case F: False
      then show ?thesis using assms False
        by (auto simp: copy_row_def Let_def split: if_splits)
    qed
  qed
  then show ?thesis by (auto simp: same_shape_def copy_n_within_length)
qed

lemma swap_rows_same_shape:
  assumes "swap_rows r1 r2 m = Returned u m'"
  shows "same_shape m m'"
proof (cases "r1 = r2")
  case True
  then show ?thesis using assms by (simp add: swap_rows_def same_shape_def)
next
  case False
  then obtain xs where l: "swap_rows_loop (m_data m) (calculate_offset m r1 0)
       (calculate_offset m r2 0) (to_size_type (m_cols m)) 0 = Some xs"
    and m': "m' = m\<lparr>m_data := xs\<rparr>"
    using assms by (auto simp: swap_rows_def split: option.splits)
  have "length xs = length (m_data m)" using l by (rule swap_rows_loop_length)
  then show ?thesis by (simp add: same_shape_def m')
qed

lemma fill_row_same_shape:
  assumes "fill_row r v m = Returned u m'"
  shows "same_shape m m'"
proof -
  have "m' = m \<or> (\<exists>a b. m' = m\<lparr>m_data := std_fill (m_data m) a b v\<rparr>)"
    using assms by (auto simp: fill_row_def Let_def split: if_splits)
  then show ?thesis by (auto simp: same_shape_def std_fill_length)
qed

lemma copy_construct_returned:
  "copy_construct env other = Returned m' s \<Longrightarrow> m' = other \<and> s = other"
  by (auto simp: copy_construct_def split: if_splits)

lemma copy_assign_returned:
  "copy_assign env cap leftover other this = Returned u m' \<Longrightarrow> m' = other"
  by (auto simp: copy_assign_def Let_def split: if_splits)

lemma copy_assign_raised:
  "copy_assign env cap leftover other this = Raised e m' \<Longrightarrow>
     rows m' = rows other \<and> cols m' = cols other \<and> m_data m' = leftover"
  by (auto simp: copy_assign_def Let_def rows_def cols_def split: if_splits)

lemma wf_moved_from:
  assumes "wf m"
  shows "wf (m\<lparr>m_data := []\<rparr>) \<longleftrightarrow> rows m * cols m = 0"
  using assms by (auto simp: wf_def rows_def cols_def UINT_MOD_def)

text \<open>
  Claim C1, as stated, fails for the source of a move. The defaulted move constructor hands
  the buffer of \<open>{{1, 2, 3}, {4, 5, 6}}\<close> to the new container and copies the two
  integers, so the moved-from container still reports 2 rows and 3 columns over an empty
  buffer: \<open>size()\<close> is 0, \<open>rows() * cols()\<close> is 6.
\<close>

theorem shape_invariant_counterexample:
  "int (size_arr (snd (move_construct example_2x3))) \<noteq>
     rows (snd (move_construct example_2x3)) * cols (snd (move_construct example_2x3))"
  by (simp add: move_construct_def size_arr_def rows_def cols_def example_2x3_def)

text \<open>
  Claim C1, amended, for \<open>array2d<Ty, int>\<close>. The shape invariant \<open>wf\<close> gives
  \<open>size() = rows() * cols()\<close> with both extents non-negative. It is established by every
  constructor that returns, and it is kept by the operations that are invoked on containers
  satisfying it, except for the source of a move; the operations that keep the shape do
  not restore it on a container that violates it. In the order of the conjuncts:

  \<^item> the invariant gives the equation;
  \<^item> the default constructor, \<open>array2d(rows, cols)\<close>, \<open>array2d(rows, cols, value)\<close>, the
    initializer-list constructor (for a list of at most \<open>INT_MAX\<close> rows and columns) and
    the flat-source constructor build a container that satisfies it, whenever they return;
  \<^item> a copy construction that returns yields the source's state and leaves the source as
    it was; a copy assignment that returns leaves the target in the source's state; a copy
    assignment that throws has assigned \<open>rows()\<close> and \<open>cols()\<close> already, over whatever
    buffer the failed vector assignment left;
  \<^item> the target of a move construction or move assignment satisfies the invariant exactly
    when the source did; the source keeps \<open>rows()\<close> and \<open>cols()\<close> and has \<open>size()\<close> 0
    afterwards, so a source that satisfied the invariant satisfies it afterwards exactly
    when \<open>rows() * cols() = 0\<close>;
  \<^item> \<open>swap\<close> exchanges the two states;
  \<^item> \<open>fill\<close>, \<open>fill_parallel\<close> under any schedule, \<open>reset\<close>, and, when they return,
    \<open>copy_row\<close>, \<open>swap_rows\<close>, \<open>fill_row\<close> and \<open>transpose\<close> change none of \<open>rows()\<close>,
    \<open>cols()\<close> and \<open>size()\<close>; a \<open>transpose\<close> that throws changes nothing; two states
    with the same \<open>rows()\<close>, \<open>cols()\<close> and \<open>size()\<close> satisfy the invariant or violate it
    together;
  \<^item> a \<open>resize\<close> that returns on a container satisfying the invariant leaves it
    satisfied; a \<open>resize\<close> that throws changes nothing; a \<open>resize\<close> to the current
    dimensions changes nothing;
  \<^item> \<open>transposed\<close> on a container satisfying the invariant yields a result that
    satisfies it and leaves the receiver as it was, whether it returns or throws.
\<close>

theorem shape_invariant_amended:
  "(wf m \<longrightarrow> 0 \<le> rows m \<and> 0 \<le> cols m \<and> int (size_arr m) = rows m * cols m) \<and>
   wf (array2d_default :: 'a array2d) \<and>
   (is_index r \<and> is_index c \<and> array2d_dims Idx_int T env r c = Returned m1 u \<longrightarrow> wf m1) \<and>
   (is_index r \<and> is_index c \<and> array2d_value env r c v = Returned m2 u \<longrightarrow> wf m2) \<and>
   (length init_list \<le> nat INT_MAX \<and> (\<forall>row \<in> set init_list. length row \<le> nat INT_MAX) \<and>
      array2d_init env init_list = Returned m3 u \<longrightarrow> wf m3) \<and>
   (is_index r \<and> is_index c \<and> array2d_container env r c xs = Returned m4 u \<longrightarrow> wf m4) \<and>
   (copy_construct env m = Returned m5 s \<longrightarrow> m5 = m \<and> s = m) \<and>
   (copy_assign env cap leftover m t = Returned u m6 \<longrightarrow> m6 = m) \<and>
   (copy_assign env cap leftover m t = Raised e m7 \<longrightarrow>
      rows m7 = rows m \<and> cols m7 = cols m \<and> m_data m7 = leftover) \<and>
   ((wf (fst (move_construct m)) \<longleftrightarrow> wf m) \<and> (wf (fst (move_assign t m)) \<longleftrightarrow> wf m)) \<and>
   (rows (snd (move_construct m)) = rows m \<and> cols (snd (move_construct m)) = cols m \<and>
    size_arr (snd (move_construct m)) = 0 \<and>
    rows (snd (move_assign t m)) = rows m \<and> cols (snd (move_assign t m)) = cols m \<and>
    size_arr (snd (move_assign t m)) = 0) \<and>
   (wf m \<longrightarrow> (wf (snd (move_construct m)) \<longleftrightarrow> rows m * cols m = 0) \<and>
             (wf (snd (move_assign t m)) \<longleftrightarrow> rows m * cols m = 0)) \<and>
   swap_arr t m = (m, t) \<and>
   (same_shape m (fill T v m) \<and> same_shape m (fill_parallel T sched v m) \<and>
    same_shape m (reset T opt m)) \<and>
   (copy_row T a b m = Returned u m8 \<longrightarrow> same_shape m m8) \<and>
   (swap_rows a b m = Returned u m9 \<longrightarrow> same_shape m m9) \<and>
   (fill_row a v m = Returned u m10 \<longrightarrow> same_shape m m10) \<and>
   (transpose T m = Some (Returned u m11) \<longrightarrow> same_shape m m11) \<and>
   (transpose T m = Some (Raised e m12) \<longrightarrow> m12 = m) \<and>
   (same_shape m t \<longrightarrow>
      rows m = rows t \<and> cols m = cols t \<and> size_arr m = size_arr t \<and> (wf m \<longleftrightarrow> wf t)) \<and>
   (wf m \<and> is_index r \<and> is_index c \<and> resize_impl T env r c fv m = Returned u m13 \<longrightarrow>
      wf m13) \<and>
   (resize_impl T env r c fv m = Raised e m14 \<longrightarrow> m14 = m) \<and>
   (0 \<le> rows m \<and> 0 \<le> cols m \<longrightarrow>
      resize_impl T env (rows m) (cols m) fv m = Returned () m) \<and>
   (wf m \<and> transposed T env m = Some (Returned m15 m16) \<longrightarrow> wf m15 \<and> m16 = m) \<and>
   (wf m \<and> transposed T env m = Some (Raised e m17) \<longrightarrow> m17 = m)"
proof (intro conjI impI)
  show "wf (array2d_default :: 'a array2d)" by (rule wf_default)
next
  assume w: "wf m"
  then show "int (size_arr m) = rows m * cols m" by (rule wf_size)
  from w show "0 \<le> rows m" "0 \<le> cols m" by (simp_all add: wf_def rows_def cols_def)
  from w show "wf (snd (move_construct m)) \<longleftrightarrow> rows m * cols m = 0"
    "wf (snd (move_assign t m)) \<longleftrightarrow> rows m * cols m = 0"
    using wf_moved_from [of m] by (simp_all add: move_construct_def move_assign_def)
next
  assume "is_index r \<and> is_index c \<and> array2d_dims Idx_int T env r c = Returned m1 u"
  then show "wf m1" using wf_array2d_dims [of r c T env m1 u] by simp
next
  assume "is_index r \<and> is_index c \<and> array2d_value env r c v = Returned m2 u"
  then show "wf m2" using wf_array2d_value [of r c env v m2 u] by simp
next
  assume "length init_list \<le> nat INT_MAX \<and> (\<forall>row \<in> set init_list. length row \<le> nat INT_MAX) \<and>
      array2d_init env init_list = Returned m3 u"
  then show "wf m3" using wf_array2d_init [of init_list env m3 u] by simp
next
  assume "is_index r \<and> is_index c \<and> array2d_container env r c xs = Returned m4 u"
  then show "wf m4" using wf_array2d_container [of r c env xs m4 u] by simp
next
  assume c: "copy_construct env m = Returned m5 s"
  then show "m5 = m" using copy_construct_returned by blast
  from c show "s = m" using copy_construct_returned by blast
next
  assume "copy_assign env cap leftover m t = Returned u m6"
  then show "m6 = m" by (rule copy_assign_returned)
next
  assume c: "copy_assign env cap leftover m t = Raised e m7"
  show "rows m7 = rows m" "cols m7 = cols m" "m_data m7 = leftover"
    using copy_assign_raised [OF c] by simp_all
next
  show "wf (fst (move_construct m)) \<longleftrightarrow> wf m" "wf (fst (move_assign t m)) \<longleftrightarrow> wf m"
    by (simp_all add: move_construct_def move_assign_def)
next
  show "rows (snd (move_construct m)) = rows m" "cols (snd (move_construct m)) = cols m"
    "size_arr (snd (move_construct m)) = 0"
    "rows (snd (move_assign t m)) = rows m" "cols (snd (move_assign t m)) = cols m"
    "size_arr (snd (move_assign t m)) = 0"
    by (simp_all add: move_construct_def move_assign_def rows_def cols_def size_arr_def)
next
  show "swap_arr t m = (m, t)" by (simp add: swap_arr_def)
next
  show "same_shape m (fill T v m)" by (rule fill_same_shape)
  show "same_shape m (fill_parallel T sched v m)" by (rule fill_parallel_same_shape)
  show "same_shape m (reset T opt m)" by (rule reset_same_shape)
next
  assume "copy_row T a b m = Returned u m8"
  then show "same_shape m m8" by (rule copy_row_same_shape)
next
  assume "swap_rows a b m = Returned u m9"
  then show "same_shape m m9" by (rule swap_rows_same_shape)
next
  assume "fill_row a v m = Returned u m10"
  then show "same_shape m m10" by (rule fill_row_same_shape)
next
  assume "transpose T m = Some (Returned u m11)"
  then show "same_shape m m11" using transpose_shape [of T m "Returned u m11"] by simp
next
  assume "transpose T m = Some (Raised e m12)"
  then show "m12 = m" using transpose_shape [of T m "Raised e m12"] by simp
next
  assume ss: "same_shape m t"
  show "rows m = rows t" "cols m = cols t" "size_arr m = size_arr t" "wf m \<longleftrightarrow> wf t"
    using same_shape_queries [OF ss] by simp_all
next
  assume "wf m \<and> is_index r \<and> is_index c \<and> resize_impl T env r c fv m = Returned u m13"
  then show "wf m13" using wf_resize_impl [of m r c T env fv u m13] by (simp add: is_index_def)
next
  assume "resize_impl T env r c fv m = Raised e m14"
  then show "m14 = m" by (rule resize_impl_raise_unchanged)
next
  assume "0 \<le> rows m \<and> 0 \<le> cols m"
  then show "resize_impl T env (rows m) (cols m) fv m = Returned () m"
    using resize_impl_same [of m T env fv] by (simp add: rows_def cols_def)
next
  assume h: "wf m \<and> transposed T env m = Some (Returned m15 m16)"
  then show "wf m15" using transposed_shape [of m T env "Returned m15 m16"] by simp
  from h show "m16 = m" using transposed_shape [of m T env "Returned m15 m16"] by simp
next
  assume "wf m \<and> transposed T env m = Some (Raised e m17)"
  then show "m17 = m" using transposed_shape [of m T env "Raised e m17"] by simp
qed

theorem shape_invariant_amended_witness:
  "wf example_2x3 \<and>
   int (size_arr example_2x3) = rows example_2x3 * cols example_2x3 \<and>
   is_index 2 \<and> is_index 3 \<and> is_index 4 \<and>
   (\<exists>m1. array2d_dims Idx_int int_elem no_faults 2 3 = Returned m1 () \<and> wf m1) \<and>
   wf (fill int_elem 5 example_2x3) \<and>
   wf (fst (move_construct example_2x3)) \<and>
   \<not> wf (snd (move_construct example_2x3)) \<and>
   \<not> wf (fill int_elem 5 (snd (move_construct example_2x3))) \<and>
   resize_impl int_elem no_faults 2 3 None (snd (move_construct example_2x3)) =
     Returned () (snd (move_construct example_2x3)) \<and>
   copy_construct no_faults (snd (move_construct example_2x3)) =
     Returned (snd (move_construct example_2x3)) (snd (move_construct example_2x3)) \<and>
   (\<exists>m13. resize_impl int_elem no_faults 3 4 None example_2x3 = Returned () m13 \<and> wf m13) \<and>
   (\<exists>m8. copy_row int_elem 0 1 example_2x3 = Returned () m8 \<and> wf m8) \<and>
   (\<exists>m7. copy_assign \<lparr>max_alloc = 0, elem_budget = 0\<rparr> 0 [] example_2x3 array2d_default =
            Raised BadAlloc m7 \<and> rows m7 = 2 \<and> cols m7 = 3 \<and> m_data m7 = [])"
proof -
  let ?mv = "snd (move_construct example_2x3)"
  let ?env0 = "\<lparr>max_alloc = 0, elem_budget = 0\<rparr>"
  have w: "wf example_2x3"
    by (simp add: wf_def example_2x3_def INT_MAX_def UINT_MOD_def)
  have i: "is_index 2" "is_index 3" "is_index 4"
    by (simp_all add: is_index_def INT_MIN_def INT_MAX_def)
  have b: "(0::int) \<le> 3" "3 \<le> INT_MAX" "(0::int) \<le> 4" "4 \<le> INT_MAX"
    by (simp_all add: INT_MAX_def)
  have d: "rows example_2x3 = 2" "cols example_2x3 = 3"
    by (simp_all add: rows_def cols_def example_2x3_def)
  have dm: "rows ?mv = 2" "cols ?mv = 3"
    by (simp_all add: rows_def cols_def example_2x3_def move_construct_def)
  obtain m1 where m1: "array2d_dims Idx_int int_elem no_faults 2 3 = Returned m1 ()"
    using array2d_dims_int_cases [OF i(1) i(2), of int_elem no_faults]
    by (simp add: UINT_MOD_def no_faults_def)
  obtain m13 where m13: "resize_impl int_elem no_faults 3 4 None example_2x3 = Returned () m13"
    using resize_impl_total [OF w b, of no_faults int_elem None]
    by (auto simp: no_faults_def UINT_MOD_def)
  have v: "(0::int) \<le> 0" "0 < m_rows example_2x3" "(0::int) \<le> 1" "1 < m_rows example_2x3"
    "(0::int) \<noteq> 1"
    by (simp_all add: example_2x3_def)
  obtain m8 where m8: "copy_row int_elem 0 1 example_2x3 = Returned () m8"
    using copy_row_returns(1) [OF w v, of int_elem] by blast
  have cc: "copy_construct no_faults ?mv = Returned ?mv ?mv"
    by (simp add: copy_construct_def move_construct_def no_faults_def)
  obtain m7 where m7: "copy_assign ?env0 0 [] example_2x3 array2d_default = Raised BadAlloc m7"
    by (simp add: copy_assign_def Let_def example_2x3_def array2d_default_def)
  note tA = shape_invariant_amended
    [where m = example_2x3 and r = 2 and c = 3 and T = int_elem and env = no_faults
      and ?m1.0 = m1 and u = "()" and v = 5 and ?m2.0 = example_2x3 and init_list = "[]"
      and ?m3.0 = example_2x3 and xs = "[]" and ?m4.0 = example_2x3 and ?m5.0 = example_2x3
      and s = example_2x3 and cap = 0 and leftover = "[]" and t = "fill int_elem 5 example_2x3"
      and ?m6.0 = example_2x3 and e = BadAlloc and ?m7.0 = example_2x3 and sched = "[]"
      and opt = All_bits0 and a = 0 and b = 1 and ?m8.0 = m8 and ?m9.0 = example_2x3
      and ?m10.0 = example_2x3 and ?m11.0 = example_2x3 and ?m12.0 = example_2x3
      and fv = None and ?m13.0 = example_2x3 and ?m14.0 = example_2x3
      and ?m15.0 = example_2x3 and ?m16.0 = example_2x3 and ?m17.0 = example_2x3]
  note tR = shape_invariant_amended
    [where m = example_2x3 and r = 3 and c = 4 and T = int_elem and env = no_faults
      and ?m1.0 = example_2x3 and u = "()" and v = 5 and ?m2.0 = example_2x3 and init_list = "[]"
      and ?m3.0 = example_2x3 and xs = "[]" and ?m4.0 = example_2x3 and ?m5.0 = example_2x3
      and s = example_2x3 and cap = 0 and leftover = "[]" and t = m8
      and ?m6.0 = example_2x3 and e = BadAlloc and ?m7.0 = example_2x3 and sched = "[]"
      and opt = All_bits0 and a = 0 and b = 1 and ?m8.0 = m8 and ?m9.0 = example_2x3
      and ?m10.0 = example_2x3 and ?m11.0 = example_2x3 and ?m12.0 = example_2x3
      and fv = None and ?m13.0 = m13 and ?m14.0 = example_2x3
      and ?m15.0 = example_2x3 and ?m16.0 = example_2x3 and ?m17.0 = example_2x3]
  note tB = shape_invariant_amended
    [where m = ?mv and r = 2 and c = 3 and T = int_elem and env = no_faults
      and ?m1.0 = example_2x3 and u = "()" and v = 5 and ?m2.0 = example_2x3 and init_list = "[]"
      and ?m3.0 = example_2x3 and xs = "[]" and ?m4.0 = example_2x3 and ?m5.0 = ?mv
      and s = ?mv and cap = 0 and leftover = "[]" and t = "fill int_elem 5 ?mv"
      and ?m6.0 = example_2x3 and e = BadAlloc and ?m7.0 = example_2x3 and sched = "[]"
      and opt = All_bits0 and a = 0 and b = 1 and ?m8.0 = example_2x3 and ?m9.0 = example_2x3
      and ?m10.0 = example_2x3 and ?m11.0 = example_2x3 and ?m12.0 = example_2x3
      and fv = None and ?m13.0 = example_2x3 and ?m14.0 = example_2x3
      and ?m15.0 = example_2x3 and ?m16.0 = example_2x3 and ?m17.0 = example_2x3]
  note tC = shape_invariant_amended
    [where m = example_2x3 and r = 2 and c = 3 and T = int_elem and env = ?env0
      and ?m1.0 = example_2x3 and u = "()" and v = 5 and ?m2.0 = example_2x3 and init_list = "[]"
      and ?m3.0 = example_2x3 and xs = "[]" and ?m4.0 = example_2x3 and ?m5.0 = example_2x3
      and s = example_2x3 and cap = 0 and leftover = "[]" and t = array2d_default
      and ?m6.0 = example_2x3 and e = BadAlloc and ?m7.0 = m7 and sched = "[]"
      and opt = All_bits0 and a = 0 and b = 1 and ?m8.0 = example_2x3 and ?m9.0 = example_2x3
      and ?m10.0 = example_2x3 and ?m11.0 = example_2x3 and ?m12.0 = example_2x3
      and fv = None and ?m13.0 = example_2x3 and ?m14.0 = example_2x3
      and ?m15.0 = example_2x3 and ?m16.0 = example_2x3 and ?m17.0 = example_2x3]
  have c1: "int (size_arr example_2x3) = rows example_2x3 * cols example_2x3"
    using tA w by - (elim conjE, simp)
  have c2: "wf m1"
    using tA i m1 by - (elim conjE, simp)
  have c3: "\<not> wf ?mv"
    using tA w d by - (elim conjE, simp)
  have c4: "wf (fst (move_construct example_2x3))"
    using tA w by - (elim conjE, simp)
  have c5: "wf (fill int_elem 5 example_2x3)"
    using tA w by - (elim conjE, simp)
  have c6: "\<not> wf (fill int_elem 5 ?mv)"
    using tB c3 by - (elim conjE, simp)
  have c7: "resize_impl int_elem no_faults 2 3 None ?mv = Returned () ?mv"
    using tB dm by - (elim conjE, simp)
  have c8: "wf m13"
    using tR w i m13 by - (elim conjE, simp)
  have c9: "wf m8"
    using tR w m8 by - (elim conjE, simp)
  have c10: "rows m7 = 2 \<and> cols m7 = 3 \<and> m_data m7 = []"
    using tC m7 d by - (elim conjE, simp)
  show ?thesis using w c1 i m1 c2 c3 c4 c5 c6 c7 cc m13 c8 m8 c9 m7 c10 by blast
qed

subsection \<open>Transpose with a zero block size\<close>

lemma to_index_type_zero: "to_index_type 0 = 0"
  by (simp add: to_index_type_def INT_MAX_def)

lemma index_plus_size_nat:
  assumes "0 \<le> j" "j + int n \<le> INT_MAX"
  shows "index_plus_size j n = j + int n"
proof -
  have "to_size_type j = nat j" using assms by (intro to_size_type_nat) simp_all
  moreover have "nat j + n < UINT_MOD" using assms by (simp add: INT_MAX_def UINT_MOD_def)
  moreover have "nat j + n \<le> nat INT_MAX" using assms by linarith
  ultimately show ?thesis
    using assms by (simp add: index_plus_size_def to_index_type_small)
qed

lemma transposed_bj_empty:
  "j_end \<le> bj \<Longrightarrow> transposed_bj this bi j_end bj result = Returned () result"
  by (subst transposed_bj.simps) simp

lemma transposed_bi_empty:
  "j_end \<le> j \<Longrightarrow> transposed_bi this i_end j j_end bi result = Returned () result"
proof (induction this i_end j j_end bi result rule: transposed_bi.induct)
  case (1 this i_end j j_end bi result)
  show ?case
  proof (cases "bi < i_end")
    case True
    have a: "transposed_bj this bi j_end j result = Returned () result"
      using "1.prems" by (rule transposed_bj_empty)
    have "transposed_bi this i_end j j_end (bi + 1) result = Returned () result"
      using True a "1.prems" by (rule "1.IH")
    then show ?thesis using True a by (subst transposed_bi.simps) simp
  next
    case False
    then show ?thesis by (subst transposed_bi.simps) simp
  qed
qed

lemma transposed_j_stuck:
  assumes "transposed_j bs this i i_end j result = Some y"
  shows "\<not> (bs = 0 \<and> 0 \<le> j \<and> j < m_cols this \<and> m_cols this \<le> INT_MAX)"
  using assms
proof (induction rule: transposed_j.raw_induct [rotated -1, consumes 1, case_names 1])
  case (1 transposed_j' bs this i i_end j result y)
  show ?case
  proof
    assume h: "bs = 0 \<and> 0 \<le> j \<and> j < m_cols this \<and> m_cols this \<le> INT_MAX"
    then have c1: "j < m_cols this" and c2: "\<not> INT_MAX < j + to_index_type bs"
      by (simp_all add: to_index_type_zero)
    have je: "min (j + to_index_type bs) (m_cols this) = j"
      using h by (simp add: to_index_type_zero)
    have nx: "index_plus_size j bs = j"
      using h index_plus_size_nat [of j 0] by simp
    have bi: "transposed_bi this i_end j (min (j + to_index_type bs) (m_cols this)) i result
                = Returned () result"
      unfolding je by (rule transposed_bi_empty) simp
    have "transposed_j' bs this i i_end j result = Some y"
      using "1.hyps" unfolding if_P [OF c1] if_not_P [OF c2] bi outcome.case nx .
    then have "\<not> (bs = 0 \<and> 0 \<le> j \<and> j < m_cols this \<and> m_cols this \<le> INT_MAX)"
      by (rule "1.IH")
    then show False using h by simp
  qed
qed

lemma transposed_j_diverges:
  assumes "0 \<le> j" "j < m_cols this" "m_cols this \<le> INT_MAX"
  shows "transposed_j 0 this i i_end j result = None"
proof (cases "transposed_j 0 this i i_end j result")
  case None
  then show ?thesis .
next
  case (Some y)
  then show ?thesis using transposed_j_stuck [OF Some] assms by simp
qed

lemma transposed_i_stuck:
  assumes "transposed_i bs this i result = Some y"
  shows "\<not> (bs = 0 \<and> 0 \<le> i \<and> i < m_rows this \<and> m_rows this \<le> INT_MAX \<and>
            m_cols this \<le> INT_MAX)"
  using assms
proof (induction rule: transposed_i.raw_induct [rotated -1, consumes 1, case_names 1])
  case (1 transposed_i' bs this i result y)
  show ?case
  proof
    assume h: "bs = 0 \<and> 0 \<le> i \<and> i < m_rows this \<and> m_rows this \<le> INT_MAX \<and>
            m_cols this \<le> INT_MAX"
    then have c1: "i < m_rows this" and c2: "\<not> INT_MAX < i + to_index_type bs"
      by (simp_all add: to_index_type_zero)
    have nx: "index_plus_size i bs = i"
      using h index_plus_size_nat [of i 0] by simp
    show False
    proof (cases "0 < m_cols this")
      case True
      have "transposed_j bs this i (min (i + to_index_type bs) (m_rows this)) 0 result = None"
        using h True transposed_j_diverges [of 0 this] by simp
      then show False
        using "1.hyps" unfolding if_P [OF c1] if_not_P [OF c2] by simp
    next
      case False
      then have j: "transposed_j bs this i (min (i + to_index_type bs) (m_rows this)) 0 result
                  = Some (Returned () result)"
        by (subst transposed_j.simps) simp
      have "transposed_i' bs this i result = Some y"
        using "1.hyps" unfolding if_P [OF c1] if_not_P [OF c2] j option.case outcome.case nx .
      then have "\<not> (bs = 0 \<and> 0 \<le> i \<and> i < m_rows this \<and> m_rows this \<le> INT_MAX \<and>
            m_cols this \<le> INT_MAX)"
        by (rule "1.IH")
      then show False using h by simp
    qed
  qed
qed

lemma array2d_dims_ok:
  assumes "0 \<le> r" "r \<le> INT_MAX" "0 \<le> c" "c \<le> INT_MAX" "r * c < int UINT_MOD"
    "nat (r * c) \<le> max_alloc env" "nat (r * c) \<le> elem_budget env"
  shows "array2d_dims Idx_int T env r c =
           Returned \<lparr>m_rows = r, m_cols = c,
                      m_data = replicate (nat (r * c)) (default_value T)\<rparr> ()"
proof (cases "0 < r \<and> 0 < c")
  case True
  then have "calculate_size Idx_int r c = Returned (nat (r * c)) ()"
    using assms by (simp add: calculate_size_pos)
  then show ?thesis
    using True assms(6,7)
    by (simp add: array2d_dims_def validate_dimension_def vector_resize_def)
next
  case False
  then have z: "r = 0 \<or> c = 0" using assms by auto
  then have "r * c = 0" by auto
  then show ?thesis
    using z assms(1) assms(3) by (auto simp: array2d_dims_def validate_dimension_def)
qed

lemma wf_alloc:
  assumes "wf this" "length (m_data this) \<le> n"
  shows "nat (m_cols this * m_rows this) \<le> n"
proof -
  have "int (length (m_data this)) = m_cols this * m_rows this"
    using assms(1) by (simp add: wf_def mult.commute)
  then have "nat (m_cols this * m_rows this) = length (m_data this)" by linarith
  then show ?thesis using assms(2) by simp
qed

lemma transposed_diverges:
  assumes "wf this" "0 < m_rows this" "block_size T = 0"
    "length (m_data this) \<le> max_alloc env" "length (m_data this) \<le> elem_budget env"
  shows "transposed T env this = None"
proof -
  have w: "0 \<le> m_cols this" "m_cols this \<le> INT_MAX" "m_rows this \<le> INT_MAX"
    using assms(1) by (simp_all add: wf_def)
  have idx: "is_index (m_cols this)" "is_index (m_rows this)"
    using assms(1) by (simp_all add: wf_def is_index_def INT_MIN_def)
  have "m_cols this * m_rows this < int UINT_MOD"
    using assms(1) by (simp add: wf_def mult.commute)
  then obtain result where
    r: "array2d_dims Idx_int T env (m_cols this) (m_rows this) = Returned result ()"
    using array2d_dims_ok [of "m_cols this" "m_rows this" env T] w assms(2)
      wf_alloc [OF assms(1) assms(4)] wf_alloc [OF assms(1) assms(5)] by simp
  have "transposed_i 0 this 0 result = None"
  proof (cases "transposed_i 0 this 0 result")
    case None
    then show ?thesis .
  next
    case (Some y)
    then show ?thesis using transposed_i_stuck [OF Some] assms(2) w by simp
  qed
  then show ?thesis using r assms(3) by (simp add: transposed_def)
qed

lemma block_size_zero: "64 < sizeof T \<Longrightarrow> block_size T = 0"
  by (simp add: block_size_def)

text \<open>
  Claim C7 fails on the code for element types larger than 64 bytes. With
  \<open>sizeof(Ty) = 72\<close> the constant \<open>block_size = 64 / sizeof(Ty)\<close> is 0, so neither block
  loop of \<open>transposed()\<close> advances: on the 1 x 1 container \<open>{{5}}\<close> the call does not
  return, and no transposed container is produced.
\<close>

theorem transposed_big_elem_diverges:
  "transposed big_elem no_faults \<lparr>m_rows = 1, m_cols = 1, m_data = [5]\<rparr> = None"
  by (rule transposed_diverges)
     (simp_all add: wf_def INT_MAX_def UINT_MOD_def block_size_def big_elem_def no_faults_def)


lemma transpose_bj_empty:
  "j_end \<le> bj \<Longrightarrow> transpose_bj bi j_end bj this = Returned () this"
  by (subst transpose_bj.simps) simp

lemma transpose_bi_empty:
  "j_end \<le> j \<Longrightarrow> i \<le> bi \<Longrightarrow> transpose_bi i i_end j j_end bi this = Returned () this"
proof (induction i i_end j j_end bi this rule: transpose_bi.induct)
  case (1 i i_end j j_end bi this)
  show ?case
  proof (cases "bi < i_end")
    case True
    have "j_end \<le> (if i = j then bi + 1 else j)" using "1.prems" by simp
    then have a: "transpose_bj bi j_end (if i = j then bi + 1 else j) this = Returned () this"
      by (rule transpose_bj_empty)
    have "transpose_bi i i_end j j_end (bi + 1) this = Returned () this"
      using True a "1.prems" by (intro "1.IH") simp_all
    then show ?thesis using True a by (subst transpose_bi.simps) simp
  next
    case False
    then show ?thesis by (subst transpose_bi.simps) simp
  qed
qed

lemma transpose_j_stuck:
  assumes "transpose_j bs i i_end j this = Some y"
  shows "\<not> (bs = 0 \<and> 0 \<le> j \<and> j < m_cols this \<and> m_cols this \<le> INT_MAX)"
  using assms
proof (induction rule: transpose_j.raw_induct [rotated -1, consumes 1, case_names 1])
  case (1 transpose_j' bs i i_end j this y)
  show ?case
  proof
    assume h: "bs = 0 \<and> 0 \<le> j \<and> j < m_cols this \<and> m_cols this \<le> INT_MAX"
    then have c1: "j < m_cols this" and c2: "\<not> INT_MAX < j + to_index_type bs"
      by (simp_all add: to_index_type_zero)
    have je: "min (j + to_index_type bs) (m_cols this) = j"
      using h by (simp add: to_index_type_zero)
    have nx: "index_plus_size j bs = j"
      using h index_plus_size_nat [of j 0] by simp
    have bi: "transpose_bi i i_end j (min (j + to_index_type bs) (m_cols this)) i this
                = Returned () this"
      unfolding je by (rule transpose_bi_empty) simp_all
    have "transpose_j' bs i i_end j this = Some y"
      using "1.hyps" unfolding if_P [OF c1] if_not_P [OF c2] bi outcome.case nx .
    then have "\<not> (bs = 0 \<and> 0 \<le> j \<and> j < m_cols this \<and> m_cols this \<le> INT_MAX)"
      by (rule "1.IH")
    then show False using h by simp
  qed
qed

lemma transpose_j_diverges:
  assumes "0 \<le> j" "j < m_cols this" "m_cols this \<le> INT_MAX"
  shows "transpose_j 0 i i_end j this = None"
proof (cases "transpose_j 0 i i_end j this")
  case None
  then show ?thesis .
next
  case (Some y)
  then show ?thesis using transpose_j_stuck [OF Some] assms by simp
qed

lemma transpose_diverges:
  assumes "is_square this" "0 < m_rows this" "m_rows this \<le> INT_MAX" "block_size T = 0"
  shows "transpose T this = None"
proof -
  have c: "m_cols this = m_rows this" using assms(1) by (simp add: is_square_def)
  have "transpose_j 0 0 (min (0 + to_index_type 0) (m_rows this)) 0 this = None"
    using assms c by (intro transpose_j_diverges) simp_all
  then have "transpose_i 0 0 this = None"
    using assms(2) by (subst transpose_i.simps) (simp add: to_index_type_zero INT_MAX_def)
  then show ?thesis using assms by (simp add: transpose_def)
qed

text \<open>
  Claim C6 fails on the code for element types larger than 64 bytes, by the same
  \<open>block_size = 0\<close>: on the square 1 x 1 container \<open>{{5}}\<close> the in-place \<open>transpose()\<close>
  passes the squareness check and then does not return.
\<close>

theorem transpose_big_elem_diverges:
  "transpose big_elem \<lparr>m_rows = 1, m_cols = 1, m_data = [5]\<rparr> = None"
  by (rule transpose_diverges)
     (simp_all add: is_square_def INT_MAX_def block_size_def big_elem_def)

subsection \<open>Out-of-place transpose with a positive block size\<close>

lemma cell_index_inj:
  fixes x y x' y' C :: int
  assumes "0 \<le> y" "y < C" "0 \<le> y'" "y' < C" "x * C + y = x' * C + y'"
  shows "x = x' \<and> y = y'"
proof -
  have d1: "(x * C + y) div C = x"
    using assms(1) assms(2) by simp
  have d2: "(x' * C + y') div C = x'"
    using assms(3) assms(4) by simp
  have "(x * C + y) div C = (x' * C + y') div C" using assms(5) by (rule arg_cong)
  then have x: "x = x'" unfolding d1 d2 .
  have "x * C + y = x * C + y'" using assms(5) unfolding x .
  then show ?thesis using x by simp
qed

lemma cell_index_nat_inj:
  fixes x y x' y' C :: int
  assumes "0 \<le> x" "0 \<le> x'" "0 \<le> y" "y < C" "0 \<le> y'" "y' < C"
    "nat (x * C + y) = nat (x' * C + y')"
  shows "x = x' \<and> y = y'"
proof -
  have "0 \<le> x * C + y" "0 \<le> x' * C + y'" using assms by simp_all
  then have "x * C + y = x' * C + y'" using assms(7) by linarith
  then show ?thesis using assms by (intro cell_index_inj) simp_all
qed

lemma ptr_read_cell:
  assumes "wf m" "0 \<le> x" "x < m_rows m" "0 \<le> y" "y < m_cols m"
  shows "ptr_read m (op_index m x) y = Some (cell m x y)"
proof -
  have o: "calculate_offset m x 0 = nat (x * m_cols m)"
    using row_range(1) [OF assms(1) assms(2) assms(3)] .
  have lt: "nat (x * m_cols m + y) < length (m_data m)"
    using calculate_offset_valid(2) [OF assms] .
  have nn: "0 \<le> x * m_cols m" using assms by simp
  have p: "int (nat (x * m_cols m)) + y = x * m_cols m + y" using nn by simp
  have "x * m_cols m + y < int (length (m_data m))" using lt assms nn by linarith
  then show ?thesis
    using assms nn by (simp add: ptr_read_def op_index_def o p cell_def Let_def)
qed

lemma ptr_write_cell:
  assumes "wf m" "0 \<le> x" "x < m_rows m" "0 \<le> y" "y < m_cols m"
  shows "ptr_write m (op_index m x) y v =
           Some (m\<lparr>m_data := (m_data m)[nat (x * m_cols m + y) := v]\<rparr>)"
proof -
  have o: "calculate_offset m x 0 = nat (x * m_cols m)"
    using row_range(1) [OF assms(1) assms(2) assms(3)] .
  have lt: "nat (x * m_cols m + y) < length (m_data m)"
    using calculate_offset_valid(2) [OF assms] .
  have nn: "0 \<le> x * m_cols m" using assms by simp
  have p: "int (nat (x * m_cols m)) + y = x * m_cols m + y" using nn by simp
  have "x * m_cols m + y < int (length (m_data m))" using lt assms nn by linarith
  then show ?thesis
    using assms nn by (simp add: ptr_write_def op_index_def o p Let_def)
qed

lemma cell_update:
  assumes "wf m" "0 \<le> x" "x < m_rows m" "0 \<le> y" "y < m_cols m"
    "0 \<le> x'" "x' < m_rows m" "0 \<le> y'" "y' < m_cols m"
  shows "cell (m\<lparr>m_data := (m_data m)[nat (x * m_cols m + y) := v]\<rparr>) x' y' =
           (if x' = x \<and> y' = y then v else cell m x' y')"
proof -
  have lt: "nat (x * m_cols m + y) < length (m_data m)"
    using calculate_offset_valid(2) [OF assms(1) assms(2) assms(3) assms(4) assms(5)] .
  show ?thesis
  proof (cases "x' = x \<and> y' = y")
    case True
    then show ?thesis using lt by (simp add: cell_def)
  next
    case False
    have "nat (x * m_cols m + y) \<noteq> nat (x' * m_cols m + y')"
      using cell_index_nat_inj [of x x' y "m_cols m" y'] assms False by blast
    then show ?thesis unfolding if_not_P [OF False] by (simp add: cell_def)
  qed
qed

lemma wf_update: "wf m \<Longrightarrow> wf (m\<lparr>m_data := (m_data m)[k := v]\<rparr>)"
  by (simp add: wf_def)

lemma op_call_cell:
  assumes "wf m" "0 \<le> x" "x < m_rows m" "0 \<le> y" "y < m_cols m"
  shows "op_call m x y = Some (cell m x y)"
  using op_call_valid [OF assms] by (simp add: cell_def)

lemma wf_cells_eq:
  assumes "wf a" "wf b" "m_rows a = m_rows b" "m_cols a = m_cols b"
    "\<And>x y. 0 \<le> x \<Longrightarrow> x < m_rows a \<Longrightarrow> 0 \<le> y \<Longrightarrow> y < m_cols a \<Longrightarrow> cell a x y = cell b x y"
  shows "a = b"
proof -
  have la: "int (length (m_data a)) = m_rows a * m_cols a"
    and lb: "int (length (m_data b)) = m_rows a * m_cols a"
    and nn: "0 \<le> m_rows a" "0 \<le> m_cols a"
    using assms by (simp_all add: wf_def)
  have len: "length (m_data a) = length (m_data b)" using la lb by linarith
  have "m_data a ! k = m_data b ! k" if k: "k < length (m_data a)" for k
  proof -
    let ?C = "m_cols a"
    have klt: "int k < m_rows a * ?C" using k la by linarith
    have cpos: "0 < ?C"
    proof (rule ccontr)
      assume "\<not> 0 < ?C"
      then have "?C = 0" using nn by simp
      then show False using klt by simp
    qed
    let ?x = "int k div ?C" and ?y = "int k mod ?C"
    have y: "0 \<le> ?y" "?y < ?C" using cpos by simp_all
    have x0: "0 \<le> ?x" using cpos by (simp add: pos_imp_zdiv_nonneg_iff)
    have e: "?x * ?C + ?y = int k" by simp
    have x1: "?x < m_rows a"
    proof (rule ccontr)
      assume "\<not> ?x < m_rows a"
      then have "m_rows a * ?C \<le> ?x * ?C" using cpos by (intro mult_right_mono) simp_all
      moreover have "?x * ?C \<le> int k" using e y by linarith
      ultimately show False using klt by linarith
    qed
    have "cell a ?x ?y = cell b ?x ?y" using x0 x1 y by (rule assms(5))
    then show ?thesis using assms(4) by (simp add: cell_def e)
  qed
  then have "m_data a = m_data b" using len by (intro nth_equalityI) simp_all
  then show ?thesis using assms(3) assms(4) by simp
qed


lemma transposed_bj_spec:
  assumes "wf this" "0 \<le> bi" "bi < m_rows this"
    and "wf res" "m_rows res = m_cols this" "m_cols res = m_rows this"
    and "0 \<le> bj" "j_end \<le> m_cols this"
  shows "\<exists>res'. transposed_bj this bi j_end bj res = Returned () res' \<and>
           wf res' \<and> m_rows res' = m_cols this \<and> m_cols res' = m_rows this \<and>
           (\<forall>x y. 0 \<le> x \<and> x < m_rows this \<and> 0 \<le> y \<and> y < m_cols this \<longrightarrow>
              cell res' y x =
                (if x = bi \<and> bj \<le> y \<and> y < j_end then cell this x y else cell res y x))"
  using assms(4-8)
proof (induction "nat (j_end - bj)" arbitrary: bj res)
  case 0
  then have "transposed_bj this bi j_end bj res = Returned () res"
    by (intro transposed_bj_empty) simp
  moreover have "j_end \<le> bj" using 0 by linarith
  ultimately show ?case using 0(2-4) by auto
next
  case (Suc k)
  have lt: "bj < j_end" using Suc.hyps(2) by linarith
  then have bjC: "bj < m_cols this" using Suc.prems by simp
  let ?v = "cell this bi bj"
  let ?res1 = "res\<lparr>m_data := (m_data res)[nat (bj * m_cols res + bi) := ?v]\<rparr>"
  have rd: "ptr_read this (op_index this bi) bj = Some ?v"
    using assms(1-3) Suc.prems(4) bjC by (intro ptr_read_cell)
  have wr: "ptr_write res (op_index res bj) bi ?v = Some ?res1"
    using Suc.prems bjC assms(2,3) by (intro ptr_write_cell) simp_all
  have unf: "transposed_bj this bi j_end bj res = transposed_bj this bi j_end (bj + 1) ?res1"
    using lt rd wr by (subst transposed_bj.simps) simp
  have w1: "wf ?res1" using Suc.prems(1) by (rule wf_update)
  have "\<exists>res'. transposed_bj this bi j_end (bj + 1) ?res1 = Returned () res' \<and>
           wf res' \<and> m_rows res' = m_cols this \<and> m_cols res' = m_rows this \<and>
           (\<forall>x y. 0 \<le> x \<and> x < m_rows this \<and> 0 \<le> y \<and> y < m_cols this \<longrightarrow>
              cell res' y x =
                (if x = bi \<and> bj + 1 \<le> y \<and> y < j_end then cell this x y else cell ?res1 y x))"
    using Suc.hyps(2) Suc.prems w1 by (intro Suc.hyps(1)) simp_all
  then obtain res' where r: "transposed_bj this bi j_end (bj + 1) ?res1 = Returned () res'"
    "wf res'" "m_rows res' = m_cols this" "m_cols res' = m_rows this"
    and cells: "\<And>x y. 0 \<le> x \<and> x < m_rows this \<and> 0 \<le> y \<and> y < m_cols this \<Longrightarrow>
              cell res' y x =
                (if x = bi \<and> bj + 1 \<le> y \<and> y < j_end then cell this x y else cell ?res1 y x)"
    by blast
  have c1: "cell ?res1 y x = (if y = bj \<and> x = bi then ?v else cell res y x)"
    if "0 \<le> x \<and> x < m_rows this \<and> 0 \<le> y \<and> y < m_cols this" for x y
    using Suc.prems bjC assms(2,3) that by (intro cell_update) simp_all
  have "cell res' y x =
                (if x = bi \<and> bj \<le> y \<and> y < j_end then cell this x y else cell res y x)"
    if v: "0 \<le> x \<and> x < m_rows this \<and> 0 \<le> y \<and> y < m_cols this" for x y
  proof (cases "x = bi \<and> y = bj")
    case True
    then show ?thesis using cells [OF v] c1 [OF v] lt by simp
  next
    case False
    then have "(x = bi \<and> bj + 1 \<le> y \<and> y < j_end) = (x = bi \<and> bj \<le> y \<and> y < j_end)"
      by auto
    then show ?thesis using cells [OF v] c1 [OF v] False by auto
  qed
  then show ?case using r unf by auto
qed

lemma transposed_bi_spec:
  assumes "wf this" "0 \<le> j" "j_end \<le> m_cols this" "i_end \<le> m_rows this"
    and "wf res" "m_rows res = m_cols this" "m_cols res = m_rows this"
    and "0 \<le> bi"
  shows "\<exists>res'. transposed_bi this i_end j j_end bi res = Returned () res' \<and>
           wf res' \<and> m_rows res' = m_cols this \<and> m_cols res' = m_rows this \<and>
           (\<forall>x y. 0 \<le> x \<and> x < m_rows this \<and> 0 \<le> y \<and> y < m_cols this \<longrightarrow>
              cell res' y x =
                (if bi \<le> x \<and> x < i_end \<and> j \<le> y \<and> y < j_end then cell this x y
                 else cell res y x))"
  using assms(5-8)
proof (induction "nat (i_end - bi)" arbitrary: bi res)
  case 0
  then have "\<not> bi < i_end" by linarith
  then have "transposed_bi this i_end j j_end bi res = Returned () res"
    by (subst transposed_bi.simps) simp
  moreover have "i_end \<le> bi" using 0 by linarith
  ultimately show ?case using 0(2-4) by auto
next
  case (Suc k)
  have lt: "bi < i_end" using Suc.hyps(2) by linarith
  then have biR: "bi < m_rows this" using assms(4) by simp
  obtain res1 where r1: "transposed_bj this bi j_end j res = Returned () res1"
    "wf res1" "m_rows res1 = m_cols this" "m_cols res1 = m_rows this"
    and c1: "\<And>x y. 0 \<le> x \<and> x < m_rows this \<and> 0 \<le> y \<and> y < m_cols this \<Longrightarrow>
              cell res1 y x =
                (if x = bi \<and> j \<le> y \<and> y < j_end then cell this x y else cell res y x)"
    using transposed_bj_spec [OF assms(1) Suc.prems(4) biR Suc.prems(1-3) assms(2,3)]
    by blast
  have unf: "transposed_bi this i_end j j_end bi res =
             transposed_bi this i_end j j_end (bi + 1) res1"
    using lt r1(1) by (subst transposed_bi.simps) simp
  have "\<exists>res'. transposed_bi this i_end j j_end (bi + 1) res1 = Returned () res' \<and>
           wf res' \<and> m_rows res' = m_cols this \<and> m_cols res' = m_rows this \<and>
           (\<forall>x y. 0 \<le> x \<and> x < m_rows this \<and> 0 \<le> y \<and> y < m_cols this \<longrightarrow>
              cell res' y x =
                (if bi + 1 \<le> x \<and> x < i_end \<and> j \<le> y \<and> y < j_end then cell this x y
                 else cell res1 y x))"
    using Suc.hyps(2) Suc.prems(4) r1 by (intro Suc.hyps(1)) simp_all
  then obtain res' where r: "transposed_bi this i_end j j_end (bi + 1) res1 = Returned () res'"
    "wf res'" "m_rows res' = m_cols this" "m_cols res' = m_rows this"
    and cells: "\<And>x y. 0 \<le> x \<and> x < m_rows this \<and> 0 \<le> y \<and> y < m_cols this \<Longrightarrow>
              cell res' y x =
                (if bi + 1 \<le> x \<and> x < i_end \<and> j \<le> y \<and> y < j_end then cell this x y
                 else cell res1 y x)"
    by blast
  have "cell res' y x =
                (if bi \<le> x \<and> x < i_end \<and> j \<le> y \<and> y < j_end then cell this x y
                 else cell res y x)"
    if v: "0 \<le> x \<and> x < m_rows this \<and> 0 \<le> y \<and> y < m_cols this" for x y
  proof (cases "x = bi")
    case True
    then show ?thesis using cells [OF v] c1 [OF v] lt by simp
  next
    case False
    then have "(bi + 1 \<le> x) = (bi \<le> x)" by linarith
    then show ?thesis using cells [OF v] c1 [OF v] False by simp
  qed
  then show ?case using r unf by auto
qed


lemma block_size_le: "block_size T \<le> 64"
proof -
  have "(64 div sizeof T) mod UINT_MOD \<le> 64 div sizeof T" by (rule mod_less_eq_dividend)
  also have "\<dots> \<le> 64" by (rule div_le_dividend)
  finally show ?thesis by (simp add: block_size_def)
qed

lemma to_index_type_block: "bs \<le> 64 \<Longrightarrow> to_index_type bs = int bs"
  by (intro to_index_type_small) (simp add: INT_MAX_def)

lemma transposed_j_spec:
  assumes "wf this" "0 < bs" "bs \<le> 64" "m_cols this + int bs \<le> INT_MAX"
    and "0 \<le> i" "i_end \<le> m_rows this"
    and "wf res" "m_rows res = m_cols this" "m_cols res = m_rows this"
    and "0 \<le> j"
  shows "\<exists>res'. transposed_j bs this i i_end j res = Some (Returned () res') \<and>
           wf res' \<and> m_rows res' = m_cols this \<and> m_cols res' = m_rows this \<and>
           (\<forall>x y. 0 \<le> x \<and> x < m_rows this \<and> 0 \<le> y \<and> y < m_cols this \<longrightarrow>
              cell res' y x =
                (if i \<le> x \<and> x < i_end \<and> j \<le> y then cell this x y else cell res y x))"
  using assms(7-10)
proof (induction "nat (m_cols this - j)" arbitrary: j res rule: less_induct)
  case less
  show ?case
  proof (cases "j < m_cols this")
    case False
    then have "transposed_j bs this i i_end j res = Some (Returned () res)"
      by (subst transposed_j.simps) simp
    then show ?thesis using less.prems(1-3) False by auto
  next
    case True
    have tb: "to_index_type bs = int bs" using assms(3) by (rule to_index_type_block)
    have c2: "\<not> INT_MAX < j + to_index_type bs" using True assms(4) tb by linarith
    have nx: "index_plus_size j bs = j + int bs"
      using less.prems(4) True assms(4) by (intro index_plus_size_nat) simp_all
    let ?je = "min (j + int bs) (m_cols this)"
    obtain res1 where r1: "transposed_bi this i_end j ?je i res = Returned () res1"
      "wf res1" "m_rows res1 = m_cols this" "m_cols res1 = m_rows this"
      and c1: "\<And>x y. 0 \<le> x \<and> x < m_rows this \<and> 0 \<le> y \<and> y < m_cols this \<Longrightarrow>
              cell res1 y x =
                (if i \<le> x \<and> x < i_end \<and> j \<le> y \<and> y < ?je then cell this x y
                 else cell res y x)"
      using transposed_bi_spec [OF assms(1) less.prems(4) _ assms(6) less.prems(1-3) assms(5),
          of ?je]
      by auto
    have unf: "transposed_j bs this i i_end j res =
               transposed_j bs this i i_end (j + int bs) res1"
      using True c2 r1(1) by (subst transposed_j.simps) (simp add: tb nx)
    have "\<exists>res'. transposed_j bs this i i_end (j + int bs) res1 = Some (Returned () res') \<and>
           wf res' \<and> m_rows res' = m_cols this \<and> m_cols res' = m_rows this \<and>
           (\<forall>x y. 0 \<le> x \<and> x < m_rows this \<and> 0 \<le> y \<and> y < m_cols this \<longrightarrow>
              cell res' y x =
                (if i \<le> x \<and> x < i_end \<and> j + int bs \<le> y then cell this x y
                 else cell res1 y x))"
      using True assms(2) less.prems(4) r1 by (intro less.hyps) simp_all
    then obtain res' where
      r: "transposed_j bs this i i_end (j + int bs) res1 = Some (Returned () res')"
      "wf res'" "m_rows res' = m_cols this" "m_cols res' = m_rows this"
      and cells: "\<And>x y. 0 \<le> x \<and> x < m_rows this \<and> 0 \<le> y \<and> y < m_cols this \<Longrightarrow>
              cell res' y x =
                (if i \<le> x \<and> x < i_end \<and> j + int bs \<le> y then cell this x y
                 else cell res1 y x)"
      by blast
    have "cell res' y x =
                (if i \<le> x \<and> x < i_end \<and> j \<le> y then cell this x y else cell res y x)"
      if v: "0 \<le> x \<and> x < m_rows this \<and> 0 \<le> y \<and> y < m_cols this" for x y
    proof (cases "i \<le> x \<and> x < i_end \<and> j \<le> y")
      case T: True
      show ?thesis
      proof (cases "j + int bs \<le> y")
        case True
        then have p: "i \<le> x \<and> x < i_end \<and> j + int bs \<le> y" using T by simp
        show ?thesis using cells [OF v] unfolding if_P [OF p] if_P [OF T] .
      next
        case False
        then have n: "\<not> (i \<le> x \<and> x < i_end \<and> j + int bs \<le> y)" by simp
        have p: "i \<le> x \<and> x < i_end \<and> j \<le> y \<and> y < ?je" using False T v by simp
        have "cell res' y x = cell res1 y x" using cells [OF v] unfolding if_not_P [OF n] .
        also have "\<dots> = cell this x y" using c1 [OF v] unfolding if_P [OF p] .
        finally show ?thesis unfolding if_P [OF T] .
      qed
    next
      case False
      then have n1: "\<not> (i \<le> x \<and> x < i_end \<and> j + int bs \<le> y)"
        and n2: "\<not> (i \<le> x \<and> x < i_end \<and> j \<le> y \<and> y < ?je)"
        by auto
      have "cell res' y x = cell res1 y x" using cells [OF v] unfolding if_not_P [OF n1] .
      also have "\<dots> = cell res y x" using c1 [OF v] unfolding if_not_P [OF n2] .
      finally show ?thesis unfolding if_not_P [OF False] .
    qed
    then show ?thesis using r unf by auto
  qed
qed

lemma transposed_i_spec:
  assumes "wf this" "0 < bs" "bs \<le> 64" "m_cols this + int bs \<le> INT_MAX"
    "m_rows this + int bs \<le> INT_MAX"
    and "wf res" "m_rows res = m_cols this" "m_cols res = m_rows this"
    and "0 \<le> i"
  shows "\<exists>res'. transposed_i bs this i res = Some (Returned () res') \<and>
           wf res' \<and> m_rows res' = m_cols this \<and> m_cols res' = m_rows this \<and>
           (\<forall>x y. 0 \<le> x \<and> x < m_rows this \<and> 0 \<le> y \<and> y < m_cols this \<longrightarrow>
              cell res' y x = (if i \<le> x then cell this x y else cell res y x))"
  using assms(6-9)
proof (induction "nat (m_rows this - i)" arbitrary: i res rule: less_induct)
  case less
  show ?case
  proof (cases "i < m_rows this")
    case False
    then have "transposed_i bs this i res = Some (Returned () res)"
      by (subst transposed_i.simps) simp
    then show ?thesis using less.prems(1-3) False by auto
  next
    case True
    have tb: "to_index_type bs = int bs" using assms(3) by (rule to_index_type_block)
    have c2: "\<not> INT_MAX < i + to_index_type bs" using True assms(5) tb by linarith
    have nx: "index_plus_size i bs = i + int bs"
      using less.prems(4) True assms(5) by (intro index_plus_size_nat) simp_all
    let ?ie = "min (i + int bs) (m_rows this)"
    obtain res1 where r1: "transposed_j bs this i ?ie 0 res = Some (Returned () res1)"
      "wf res1" "m_rows res1 = m_cols this" "m_cols res1 = m_rows this"
      and c1: "\<And>x y. 0 \<le> x \<and> x < m_rows this \<and> 0 \<le> y \<and> y < m_cols this \<Longrightarrow>
              cell res1 y x =
                (if i \<le> x \<and> x < ?ie \<and> 0 \<le> y then cell this x y else cell res y x)"
      using transposed_j_spec [OF assms(1-4) less.prems(4) _ less.prems(1-3), of ?ie 0]
      by auto
    have unf: "transposed_i bs this i res = transposed_i bs this (i + int bs) res1"
      using True c2 r1(1) by (subst transposed_i.simps) (simp add: tb nx)
    have "\<exists>res'. transposed_i bs this (i + int bs) res1 = Some (Returned () res') \<and>
           wf res' \<and> m_rows res' = m_cols this \<and> m_cols res' = m_rows this \<and>
           (\<forall>x y. 0 \<le> x \<and> x < m_rows this \<and> 0 \<le> y \<and> y < m_cols this \<longrightarrow>
              cell res' y x = (if i + int bs \<le> x then cell this x y else cell res1 y x))"
      using True assms(2) less.prems(4) r1 by (intro less.hyps) simp_all
    then obtain res' where
      r: "transposed_i bs this (i + int bs) res1 = Some (Returned () res')"
      "wf res'" "m_rows res' = m_cols this" "m_cols res' = m_rows this"
      and cells: "\<And>x y. 0 \<le> x \<and> x < m_rows this \<and> 0 \<le> y \<and> y < m_cols this \<Longrightarrow>
              cell res' y x = (if i + int bs \<le> x then cell this x y else cell res1 y x)"
      by blast
    have "cell res' y x = (if i \<le> x then cell this x y else cell res y x)"
      if v: "0 \<le> x \<and> x < m_rows this \<and> 0 \<le> y \<and> y < m_cols this" for x y
    proof (cases "i \<le> x")
      case T: True
      show ?thesis
      proof (cases "i + int bs \<le> x")
        case True
        show ?thesis using cells [OF v] unfolding if_P [OF True] if_P [OF T] .
      next
        case False
        have p: "i \<le> x \<and> x < ?ie \<and> 0 \<le> y" using False T v by simp
        have "cell res' y x = cell res1 y x" using cells [OF v] unfolding if_not_P [OF False] .
        also have "\<dots> = cell this x y" using c1 [OF v] unfolding if_P [OF p] .
        finally show ?thesis unfolding if_P [OF T] .
      qed
    next
      case False
      then have n1: "\<not> i + int bs \<le> x" and n2: "\<not> (i \<le> x \<and> x < ?ie \<and> 0 \<le> y)"
        by auto
      have "cell res' y x = cell res1 y x" using cells [OF v] unfolding if_not_P [OF n1] .
      also have "\<dots> = cell res y x" using c1 [OF v] unfolding if_not_P [OF n2] .
      finally show ?thesis unfolding if_not_P [OF False] .
    qed
    then show ?thesis using r unf by auto
  qed
qed

lemma transposed_correct:
  assumes "wf this" "0 < block_size T"
    "m_rows this + 64 \<le> INT_MAX" "m_cols this + 64 \<le> INT_MAX"
    "length (m_data this) \<le> max_alloc env" "length (m_data this) \<le> elem_budget env"
  shows "\<exists>r. transposed T env this = Some (Returned r this) \<and>
           wf r \<and> m_rows r = m_cols this \<and> m_cols r = m_rows this \<and>
           (\<forall>x y. 0 \<le> x \<and> x < m_rows this \<and> 0 \<le> y \<and> y < m_cols this \<longrightarrow>
              cell r y x = cell this x y)"
proof -
  let ?bs = "block_size T"
  have b: "?bs \<le> 64" by (rule block_size_le)
  have w: "0 \<le> m_cols this" "m_cols this \<le> INT_MAX" "0 \<le> m_rows this" "m_rows this \<le> INT_MAX"
    using assms(1) by (simp_all add: wf_def)
  have "m_cols this * m_rows this < int UINT_MOD"
    using assms(1) by (simp add: wf_def mult.commute)
  then have ctor: "array2d_dims Idx_int T env (m_cols this) (m_rows this) =
      Returned \<lparr>m_rows = m_cols this, m_cols = m_rows this,
           m_data = replicate (nat (m_cols this * m_rows this)) (default_value T)\<rparr> ()"
    using w wf_alloc [OF assms(1) assms(5)] wf_alloc [OF assms(1) assms(6)]
    by (intro array2d_dims_ok) simp_all
  let ?res = "\<lparr>m_rows = m_cols this, m_cols = m_rows this,
           m_data = replicate (nat (m_cols this * m_rows this)) (default_value T)\<rparr>"
  have idx: "is_index (m_cols this)" "is_index (m_rows this)"
    using w by (simp_all add: is_index_def INT_MIN_def)
  have wr: "wf ?res" using idx ctor by (rule wf_array2d_dims)
  have ov: "m_cols this + int ?bs \<le> INT_MAX" "m_rows this + int ?bs \<le> INT_MAX"
    using assms(3,4) b by simp_all
  obtain res' where r: "transposed_i ?bs this 0 ?res = Some (Returned () res')"
    "wf res'" "m_rows res' = m_cols this" "m_cols res' = m_rows this"
    and cells: "\<And>x y. 0 \<le> x \<and> x < m_rows this \<and> 0 \<le> y \<and> y < m_cols this \<Longrightarrow>
              cell res' y x = (if 0 \<le> x then cell this x y else cell ?res y x)"
    using transposed_i_spec [OF assms(1) assms(2) b ov wr, of 0] by auto
  have "transposed T env this = Some (Returned res' this)"
    using ctor r(1) by (simp add: transposed_def)
  then show ?thesis using r cells by auto
qed

lemma transposed_round_trip:
  assumes "wf this" "0 < block_size T"
    "m_rows this + 64 \<le> INT_MAX" "m_cols this + 64 \<le> INT_MAX"
    "length (m_data this) \<le> max_alloc env" "length (m_data this) \<le> elem_budget env"
  shows "\<exists>r. transposed T env this = Some (Returned r this) \<and>
             transposed T env r = Some (Returned this r)"
proof -
  obtain r where r: "transposed T env this = Some (Returned r this)"
    "wf r" "m_rows r = m_cols this" "m_cols r = m_rows this"
    and c1: "\<And>x y. 0 \<le> x \<and> x < m_rows this \<and> 0 \<le> y \<and> y < m_cols this \<Longrightarrow>
              cell r y x = cell this x y"
    using transposed_correct [OF assms] by blast
  have "int (length (m_data r)) = int (length (m_data this))"
    using r(2) assms(1) r(3) r(4) by (simp add: wf_def mult.commute)
  then have len: "length (m_data r) = length (m_data this)" by simp
  have al: "length (m_data r) \<le> max_alloc env" "length (m_data r) \<le> elem_budget env"
    using assms(5,6) len by simp_all
  obtain q where q: "transposed T env r = Some (Returned q r)"
    "wf q" "m_rows q = m_cols r" "m_cols q = m_rows r"
    and c2: "\<And>x y. 0 \<le> x \<and> x < m_rows r \<and> 0 \<le> y \<and> y < m_cols r \<Longrightarrow>
              cell q y x = cell r x y"
    using transposed_correct [OF r(2) assms(2), unfolded r(3) r(4), OF assms(4) assms(3) al]
    unfolding r(3) r(4) by blast
  have "q = this"
  proof (rule wf_cells_eq)
    show "wf q" "wf this" by (rule q(2), rule assms(1))
    show "m_rows q = m_rows this" "m_cols q = m_cols this" using q r by simp_all
    fix x y assume "0 \<le> x" "x < m_rows q" "0 \<le> y" "y < m_cols q"
    then have v: "0 \<le> x \<and> x < m_rows this \<and> 0 \<le> y \<and> y < m_cols this"
      using q r by simp
    then have "cell q x y = cell r y x" using c2 [of y x] r by simp
    then show "cell q x y = cell this x y" using c1 [OF v] by simp
  qed
  then show ?thesis using r(1) q(1) by blast
qed

subsection \<open>In-place transpose with a positive block size\<close>

lemma swap_elems_cells:
  assumes "wf cur" "m_cols cur = m_rows cur" "0 \<le> a" "a < m_rows cur" "0 \<le> b" "b < m_rows cur"
  shows "\<exists>cur'. swap_elems cur a b = Some cur' \<and> wf cur' \<and>
           m_rows cur' = m_rows cur \<and> m_cols cur' = m_cols cur \<and>
           (\<forall>x y. 0 \<le> x \<and> x < m_rows cur \<and> 0 \<le> y \<and> y < m_rows cur \<longrightarrow>
              cell cur' x y =
                (if x = b \<and> y = a then cell cur a b
                 else if x = a \<and> y = b then cell cur b a else cell cur x y))"
proof -
  let ?n = "m_rows cur"
  have bc: "b < m_cols cur" and ac: "a < m_cols cur" using assms by simp_all
  let ?c1 = "cur\<lparr>m_data := (m_data cur)[nat (a * m_cols cur + b) := cell cur b a]\<rparr>"
  let ?c2 = "?c1\<lparr>m_data := (m_data ?c1)[nat (b * m_cols ?c1 + a) := cell cur a b]\<rparr>"
  have r1: "ptr_read cur (op_index cur a) b = Some (cell cur a b)"
    using assms(1,3,4,5) bc by (rule ptr_read_cell)
  have r2: "ptr_read cur (op_index cur b) a = Some (cell cur b a)"
    using assms(1,5,6,3) ac by (rule ptr_read_cell)
  have w1: "ptr_write cur (op_index cur a) b (cell cur b a) = Some ?c1"
    using assms(1,3,4,5) bc by (rule ptr_write_cell)
  have wf1: "wf ?c1" using assms(1) by (rule wf_update)
  have w2: "ptr_write ?c1 (op_index ?c1 b) a (cell cur a b) = Some ?c2"
    using wf1 assms(3-6) ac by (intro ptr_write_cell) simp_all
  have wf2: "wf ?c2" using wf1 by (rule wf_update)
  have sw: "swap_elems cur a b = Some ?c2"
    using r1 r2 w1 w2 by (simp add: swap_elems_def)
  have cells: "cell ?c2 x y =
                (if x = b \<and> y = a then cell cur a b
                 else if x = a \<and> y = b then cell cur b a else cell cur x y)"
    if v: "0 \<le> x \<and> x < ?n \<and> 0 \<le> y \<and> y < ?n" for x y
  proof -
    have yc: "y < m_cols cur" using v assms(2) by simp
    have e2: "cell ?c2 x y = (if x = b \<and> y = a then cell cur a b else cell ?c1 x y)"
      using wf1 assms(3-6) ac v yc by (intro cell_update) simp_all
    have e1: "cell ?c1 x y = (if x = a \<and> y = b then cell cur b a else cell cur x y)"
      using assms(1,3,4,5) bc v yc by (intro cell_update) simp_all
    show ?thesis unfolding e2 e1 ..
  qed
  show ?thesis
    using sw wf2 cells by (intro exI [of _ ?c2]) simp
qed

lemma swapped_state_insert:
  assumes "swapped_state orig D cur" "0 \<le> a" "a < b" "b < m_rows orig" "(a, b) \<notin> D"
  shows "\<exists>cur'. swap_elems cur a b = Some cur' \<and> swapped_state orig (insert (a, b) D) cur'"
proof -
  let ?n = "m_rows orig"
  have w: "wf cur" "m_rows cur = ?n" "m_cols cur = ?n"
    and st: "\<And>x y. 0 \<le> x \<and> x < ?n \<and> 0 \<le> y \<and> y < ?n \<Longrightarrow>
        cell cur x y = (if (min x y, max x y) \<in> D then cell orig y x else cell orig x y)"
    using assms(1) by (simp_all add: swapped_state_def)
  have va: "0 \<le> a" "a < m_rows cur" "0 \<le> b" "b < m_rows cur"
    using assms w by simp_all
  have sq: "m_cols cur = m_rows cur" using w by simp
  obtain cur' where sw: "swap_elems cur a b = Some cur'" and w': "wf cur'"
    "m_rows cur' = m_rows cur" "m_cols cur' = m_cols cur"
    and c: "\<And>x y. 0 \<le> x \<and> x < m_rows cur \<and> 0 \<le> y \<and> y < m_rows cur \<Longrightarrow>
              cell cur' x y =
                (if x = b \<and> y = a then cell cur a b
                 else if x = a \<and> y = b then cell cur b a else cell cur x y)"
    using swap_elems_cells [OF w(1) sq va] by blast
  have ab: "cell cur a b = cell orig a b" "cell cur b a = cell orig b a"
    using st [of a b] st [of b a] assms by (simp_all add: min_def max_def)
  have "cell cur' x y =
          (if (min x y, max x y) \<in> insert (a, b) D then cell orig y x else cell orig x y)"
    if v: "0 \<le> x \<and> x < ?n \<and> 0 \<le> y \<and> y < ?n" for x y
  proof -
    have v': "0 \<le> x \<and> x < m_rows cur \<and> 0 \<le> y \<and> y < m_rows cur" using v w by simp
    consider (ba) "x = b \<and> y = a" | (ab) "x = a \<and> y = b"
      | (other) "\<not> (x = b \<and> y = a) \<and> \<not> (x = a \<and> y = b)" by blast
    then show ?thesis
    proof cases
      case ba
      then have "(min x y, max x y) = (a, b)" using assms(3) by (simp add: min_def max_def)
      then show ?thesis using c [OF v'] ba ab by simp
    next
      case ab
      then have "(min x y, max x y) = (a, b)" using assms(3) by (simp add: min_def max_def)
      moreover have "cell cur' x y = cell cur b a" using c [OF v'] ab assms(3) by simp
      ultimately show ?thesis using ab \<open>cell cur b a = cell orig b a\<close> by simp
    next
      case other
      then have "(min x y, max x y) \<noteq> (a, b)" by (auto simp: min_def max_def split: if_splits)
      then have mem: "((min x y, max x y) \<in> insert (a, b) D) = ((min x y, max x y) \<in> D)"
        by auto
      have "cell cur' x y = cell cur x y" using c [OF v'] other by simp
      then show ?thesis unfolding mem using st [OF v] by simp
    qed
  qed
  then have "swapped_state orig (insert (a, b) D) cur'"
    using w w' by (simp add: swapped_state_def)
  then show ?thesis using sw by blast
qed


lemma swapped_state_dims:
  "swapped_state orig D cur \<Longrightarrow> m_rows cur = m_rows orig \<and> m_cols cur = m_rows orig"
  by (simp add: swapped_state_def)

lemma transpose_bj_spec:
  assumes "0 \<le> bi" "j_end \<le> m_rows orig"
    and "swapped_state orig D cur" "bi < bj" "\<forall>y. bj \<le> y \<and> y < j_end \<longrightarrow> (bi, y) \<notin> D"
  shows "\<exists>cur'. transpose_bj bi j_end bj cur = Returned () cur' \<and>
           swapped_state orig (D \<union> {(x, y). x = bi \<and> bj \<le> y \<and> y < j_end}) cur'"
  using assms(3-5)
proof (induction "nat (j_end - bj)" arbitrary: bj D cur)
  case 0
  then have le: "j_end \<le> bj" by linarith
  then have r: "transpose_bj bi j_end bj cur = Returned () cur" by (rule transpose_bj_empty)
  have e: "{(x, y). x = bi \<and> bj \<le> y \<and> y < j_end} = {}" using le by auto
  show ?case unfolding e Un_empty_right using r 0(2) by blast
next
  case (Suc k)
  have lt: "bj < j_end" using Suc.hyps(2) by linarith
  then have "(bi, bj) \<notin> D" using Suc.prems(3) by simp
  then obtain cur1 where sw: "swap_elems cur bi bj = Some cur1"
    and s1: "swapped_state orig (insert (bi, bj) D) cur1"
    using swapped_state_insert [OF Suc.prems(1) assms(1) Suc.prems(2)] lt assms(2) by force
  have unf: "transpose_bj bi j_end bj cur = transpose_bj bi j_end (bj + 1) cur1"
    using lt sw by (subst transpose_bj.simps) simp
  have dis: "\<forall>y. bj + 1 \<le> y \<and> y < j_end \<longrightarrow> (bi, y) \<notin> insert (bi, bj) D"
    using Suc.prems(3) by auto
  have "\<exists>cur'. transpose_bj bi j_end (bj + 1) cur1 = Returned () cur' \<and>
           swapped_state orig
             (insert (bi, bj) D \<union> {(x, y). x = bi \<and> bj + 1 \<le> y \<and> y < j_end}) cur'"
    using Suc.hyps(2) Suc.prems(2) s1 dis by (intro Suc.hyps(1)) simp_all
  moreover have "insert (bi, bj) D \<union> {(x, y). x = bi \<and> bj + 1 \<le> y \<and> y < j_end}
                 = D \<union> {(x, y). x = bi \<and> bj \<le> y \<and> y < j_end}"
    using lt by auto
  ultimately show ?case using unf by simp
qed

lemma transpose_bi_spec:
  assumes "0 \<le> i" "i_end \<le> m_rows orig" "j_end \<le> m_rows orig" "i = j \<or> i_end \<le> j"
    and "swapped_state orig D cur" "i \<le> bi"
      "\<forall>x y. bi \<le> x \<and> x < i_end \<and> (if i = j then x < y else j \<le> y) \<and> y < j_end \<longrightarrow>
             (x, y) \<notin> D"
  shows "\<exists>cur'. transpose_bi i i_end j j_end bi cur = Returned () cur' \<and>
           swapped_state orig
             (D \<union> {(x, y). bi \<le> x \<and> x < i_end \<and> (if i = j then x < y else j \<le> y) \<and>
                            y < j_end}) cur'"
  using assms(5-7)
proof (induction "nat (i_end - bi)" arbitrary: bi D cur)
  case 0
  then have le: "i_end \<le> bi" by linarith
  then have "\<not> bi < i_end" by simp
  then have r: "transpose_bi i i_end j j_end bi cur = Returned () cur"
    by (subst transpose_bi.simps) simp
  have e: "{(x, y). bi \<le> x \<and> x < i_end \<and> (if i = j then x < y else j \<le> y) \<and>
                            y < j_end} = {}"
    using le by auto
  show ?case unfolding e Un_empty_right using r 0(2) by blast
next
  case (Suc k)
  have lt: "bi < i_end" using Suc.hyps(2) by linarith
  let ?start = "if i = j then bi + 1 else j"
  have st: "bi < ?start" using lt assms(4) by auto
  have bi0: "0 \<le> bi" using assms(1) Suc.prems(2) by simp
  have d1: "\<forall>y. ?start \<le> y \<and> y < j_end \<longrightarrow> (bi, y) \<notin> D"
    using Suc.prems(3) lt by auto
  obtain cur1 where r1: "transpose_bj bi j_end ?start cur = Returned () cur1"
    and s1: "swapped_state orig (D \<union> {(x, y). x = bi \<and> ?start \<le> y \<and> y < j_end}) cur1"
    using transpose_bj_spec [OF bi0 assms(3) Suc.prems(1) st d1] by blast
  let ?D1 = "D \<union> {(x, y). x = bi \<and> ?start \<le> y \<and> y < j_end}"
  have unf: "transpose_bi i i_end j j_end bi cur = transpose_bi i i_end j j_end (bi + 1) cur1"
    using lt r1 by (subst transpose_bi.simps) simp
  have dis: "\<forall>x y. bi + 1 \<le> x \<and> x < i_end \<and> (if i = j then x < y else j \<le> y) \<and> y < j_end \<longrightarrow>
             (x, y) \<notin> ?D1"
    using Suc.prems(3) by auto
  have "\<exists>cur'. transpose_bi i i_end j j_end (bi + 1) cur1 = Returned () cur' \<and>
           swapped_state orig
             (?D1 \<union> {(x, y). bi + 1 \<le> x \<and> x < i_end \<and> (if i = j then x < y else j \<le> y) \<and>
                            y < j_end}) cur'"
    using Suc.hyps(2) Suc.prems(2) s1 dis by (intro Suc.hyps(1)) simp_all
  moreover have "?D1 \<union> {(x, y). bi + 1 \<le> x \<and> x < i_end \<and>
                                 (if i = j then x < y else j \<le> y) \<and> y < j_end}
        = D \<union> {(x, y). bi \<le> x \<and> x < i_end \<and> (if i = j then x < y else j \<le> y) \<and>
                        y < j_end}"
    using lt by (auto split: if_splits)
  ultimately show ?case using unf by simp
qed


lemma union_pairs:
  assumes "\<And>x y. (P x y \<or> Q x y) = R x y"
  shows "(D \<union> {(x, y). P x y}) \<union> {(x, y). Q x y} = D \<union> {(x, y). R x y}"
  using assms by auto

lemma transpose_j_spec:
  assumes "0 < bs" "bs \<le> 64" "m_rows orig + int bs \<le> INT_MAX" "0 \<le> i" "i < m_rows orig"
    "i_end = min (i + int bs) (m_rows orig)"
    and "swapped_state orig D cur" "j = i \<or> i_end \<le> j"
      "\<forall>x y. i \<le> x \<and> x < i_end \<and> (if j = i then x < y else j \<le> y) \<and> y < m_rows orig \<longrightarrow>
             (x, y) \<notin> D"
  shows "\<exists>cur'. transpose_j bs i i_end j cur = Some (Returned () cur') \<and>
           swapped_state orig
             (D \<union> {(x, y). i \<le> x \<and> x < i_end \<and> (if j = i then x < y else j \<le> y) \<and>
                            y < m_rows orig}) cur'"
  using assms(7-9)
proof (induction "nat (m_rows orig - j)" arbitrary: j D cur rule: less_induct)
  case less
  let ?n = "m_rows orig"
  have dims: "m_cols cur = ?n" using less.prems(1) by (simp add: swapped_state_def)
  have ie: "i < i_end" "i_end \<le> ?n" "i_end \<le> i + int bs"
    using assms(1,5,6) by simp_all
  have ij: "i \<le> j" using less.prems(2) ie by linarith
  show ?case
  proof (cases "j < ?n")
    case False
    then have r: "transpose_j bs i i_end j cur = Some (Returned () cur)"
      using dims by (subst transpose_j.simps) simp
    have "j \<noteq> i" using False assms(5) by simp
    then have e: "{(x, y). i \<le> x \<and> x < i_end \<and> (if j = i then x < y else j \<le> y) \<and>
                            y < ?n} = {}"
      using False by auto
    show ?thesis unfolding e Un_empty_right using r less.prems(1) by blast
  next
    case True
    have tb: "to_index_type bs = int bs" using assms(2) by (rule to_index_type_block)
    have c1: "j < m_cols cur" using True dims by simp
    have c2: "\<not> INT_MAX < j + to_index_type bs" using True assms(3) tb by linarith
    have nx: "index_plus_size j bs = j + int bs"
      using ij assms(4) True assms(3) by (intro index_plus_size_nat) simp_all
    let ?je = "min (j + int bs) ?n"
    have je: "?je \<le> ?n" by simp
    have jeq: "min (j + to_index_type bs) (m_cols cur) = ?je" using tb dims by simp
    have blk: "i = j \<or> i_end \<le> j" using less.prems(2) by auto
    have d1: "\<forall>x y. i \<le> x \<and> x < i_end \<and> (if i = j then x < y else j \<le> y) \<and> y < ?je \<longrightarrow>
             (x, y) \<notin> D"
      using less.prems(3) by auto
    obtain cur1 where r1: "transpose_bi i i_end j ?je i cur = Returned () cur1"
      and s1: "swapped_state orig
             (D \<union> {(x, y). i \<le> x \<and> x < i_end \<and> (if i = j then x < y else j \<le> y) \<and>
                            y < ?je}) cur1"
      using transpose_bi_spec [OF assms(4) ie(2) je blk less.prems(1) order_refl d1] by blast
    let ?D1 = "D \<union> {(x, y). i \<le> x \<and> x < i_end \<and> (if i = j then x < y else j \<le> y) \<and>
                            y < ?je}"
    have unf: "transpose_j bs i i_end j cur = transpose_j bs i i_end (j + int bs) cur1"
      using r1 by (subst transpose_j.simps)
        (simp only: if_P [OF c1] if_not_P [OF c2] jeq outcome.case nx)
    have j'ne: "j + int bs \<noteq> i" using ij assms(1) by simp
    have j'blk: "j + int bs = i \<or> i_end \<le> j + int bs" using ij ie by linarith
    have dis: "\<forall>x y. i \<le> x \<and> x < i_end \<and>
                  (if j + int bs = i then x < y else j + int bs \<le> y) \<and> y < ?n \<longrightarrow>
             (x, y) \<notin> ?D1"
    proof (intro allI impI)
      fix x y
      assume h: "i \<le> x \<and> x < i_end \<and>
                  (if j + int bs = i then x < y else j + int bs \<le> y) \<and> y < ?n"
      then have y: "j + int bs \<le> y" using j'ne by simp
      then have "\<not> y < ?je" by simp
      moreover have "(if j = i then x < y else j \<le> y)"
        using y h ie ij assms(1) by auto
      then have "(x, y) \<notin> D" using less.prems(3) h by blast
      ultimately show "(x, y) \<notin> ?D1" by simp
    qed
    have "\<exists>cur'. transpose_j bs i i_end (j + int bs) cur1 = Some (Returned () cur') \<and>
           swapped_state orig
             (?D1 \<union> {(x, y). i \<le> x \<and> x < i_end \<and>
                             (if j + int bs = i then x < y else j + int bs \<le> y) \<and>
                             y < ?n}) cur'"
      using True assms(1) s1 j'blk dis by (intro less.hyps) simp_all
    moreover have "?D1 \<union> {(x, y). i \<le> x \<and> x < i_end \<and>
                             (if j + int bs = i then x < y else j + int bs \<le> y) \<and> y < ?n}
        = D \<union> {(x, y). i \<le> x \<and> x < i_end \<and> (if j = i then x < y else j \<le> y) \<and> y < ?n}"
    proof -
      have "((i \<le> x \<and> x < i_end \<and> (if i = j then x < y else j \<le> y) \<and> y < ?je) \<or>
             (i \<le> x \<and> x < i_end \<and>
                (if j + int bs = i then x < y else j + int bs \<le> y) \<and> y < ?n))
            = (i \<le> x \<and> x < i_end \<and> (if j = i then x < y else j \<le> y) \<and> y < ?n)" for x y
      proof (cases "j = i")
        case T: True
        then have "?je = i_end" using assms(6) by simp
        then show ?thesis using T j'ne ie assms(6) by (auto simp: min_def split: if_splits)
      next
        case F: False
        then show ?thesis using j'ne by (auto simp: min_def split: if_splits)
      qed
      then show ?thesis by (rule union_pairs)
    qed
    ultimately show ?thesis using unf by simp
  qed
qed


lemma transpose_i_spec:
  assumes "0 < bs" "bs \<le> 64" "m_rows orig + int bs \<le> INT_MAX"
    and "swapped_state orig D cur" "0 \<le> i"
      "\<forall>x y. i \<le> x \<and> x < y \<and> y < m_rows orig \<longrightarrow> (x, y) \<notin> D"
  shows "\<exists>cur'. transpose_i bs i cur = Some (Returned () cur') \<and>
           swapped_state orig (D \<union> {(x, y). i \<le> x \<and> x < y \<and> y < m_rows orig}) cur'"
  using assms(4-6)
proof (induction "nat (m_rows orig - i)" arbitrary: i D cur rule: less_induct)
  case less
  let ?n = "m_rows orig"
  have dims: "m_rows cur = ?n" using less.prems(1) by (simp add: swapped_state_def)
  show ?case
  proof (cases "i < ?n")
    case False
    then have r: "transpose_i bs i cur = Some (Returned () cur)"
      using dims by (subst transpose_i.simps) simp
    have e: "{(x, y). i \<le> x \<and> x < y \<and> y < ?n} = {}" using False by auto
    show ?thesis unfolding e Un_empty_right using r less.prems(1) by blast
  next
    case True
    have tb: "to_index_type bs = int bs" using assms(2) by (rule to_index_type_block)
    have c1: "i < m_rows cur" using True dims by simp
    have c2: "\<not> INT_MAX < i + to_index_type bs" using True assms(3) tb by linarith
    have nx: "index_plus_size i bs = i + int bs"
      using less.prems(2) True assms(3) by (intro index_plus_size_nat) simp_all
    let ?ie = "min (i + int bs) ?n"
    have ieq: "min (i + to_index_type bs) (m_rows cur) = ?ie" using tb dims by simp
    have d1: "\<forall>x y. i \<le> x \<and> x < ?ie \<and> (if i = i then x < y else i \<le> y) \<and> y < ?n \<longrightarrow>
             (x, y) \<notin> D"
      using less.prems(3) by auto
    obtain cur1 where r1: "transpose_j bs i ?ie i cur = Some (Returned () cur1)"
      and s1: "swapped_state orig
             (D \<union> {(x, y). i \<le> x \<and> x < ?ie \<and> (if i = i then x < y else i \<le> y) \<and>
                            y < ?n}) cur1"
      using transpose_j_spec [OF assms(1-3) less.prems(2) True refl less.prems(1) _ d1]
      by blast
    let ?D1 = "D \<union> {(x, y). i \<le> x \<and> x < ?ie \<and> (if i = i then x < y else i \<le> y) \<and>
                            y < ?n}"
    have unf: "transpose_i bs i cur = transpose_i bs (i + int bs) cur1"
      using r1 by (subst transpose_i.simps)
        (simp only: if_P [OF c1] if_not_P [OF c2] ieq option.case outcome.case nx)
    have dis: "\<forall>x y. i + int bs \<le> x \<and> x < y \<and> y < ?n \<longrightarrow> (x, y) \<notin> ?D1"
      using less.prems(3) by auto
    have "\<exists>cur'. transpose_i bs (i + int bs) cur1 = Some (Returned () cur') \<and>
           swapped_state orig
             (?D1 \<union> {(x, y). i + int bs \<le> x \<and> x < y \<and> y < ?n}) cur'"
      using True assms(1) less.prems(2) s1 dis by (intro less.hyps) simp_all
    moreover have "?D1 \<union> {(x, y). i + int bs \<le> x \<and> x < y \<and> y < ?n}
        = D \<union> {(x, y). i \<le> x \<and> x < y \<and> y < ?n}"
    proof (rule union_pairs)
      fix x y
      show "((i \<le> x \<and> x < ?ie \<and> (if i = i then x < y else i \<le> y) \<and> y < ?n) \<or>
             (i + int bs \<le> x \<and> x < y \<and> y < ?n))
            = (i \<le> x \<and> x < y \<and> y < ?n)"
        using assms(1) by (auto simp: min_def split: if_splits)
    qed
    ultimately show ?thesis using unf by simp
  qed
qed

lemma swapped_state_init: "wf this \<Longrightarrow> is_square this \<Longrightarrow> swapped_state this {} this"
  by (simp add: swapped_state_def is_square_def)

lemma transpose_correct:
  assumes "wf this" "is_square this" "0 < block_size T" "m_rows this + 64 \<le> INT_MAX"
  shows "\<exists>cur'. transpose T this = Some (Returned () cur') \<and> wf cur' \<and>
           m_rows cur' = m_rows this \<and> m_cols cur' = m_cols this \<and>
           (\<forall>x y. 0 \<le> x \<and> x < m_rows this \<and> 0 \<le> y \<and> y < m_cols this \<longrightarrow>
              cell cur' x y = cell this y x)"
proof -
  let ?bs = "block_size T" and ?n = "m_rows this"
  have b: "?bs \<le> 64" by (rule block_size_le)
  have ov: "?n + int ?bs \<le> INT_MAX" using assms(4) b by simp
  have sq: "m_cols this = ?n" using assms(2) by (simp add: is_square_def)
  have s0: "swapped_state this {} this" using assms(1,2) by (rule swapped_state_init)
  obtain cur' where r: "transpose_i ?bs 0 this = Some (Returned () cur')"
    and s: "swapped_state this ({} \<union> {(x, y). 0 \<le> x \<and> x < y \<and> y < ?n}) cur'"
    using transpose_i_spec [OF assms(3) b ov s0, of 0] by auto
  have t: "transpose T this = Some (Returned () cur')"
    using r assms(2) by (simp add: transpose_def)
  have w: "wf cur'" "m_rows cur' = ?n" "m_cols cur' = ?n"
    and st: "\<And>x y. 0 \<le> x \<and> x < ?n \<and> 0 \<le> y \<and> y < ?n \<Longrightarrow>
        cell cur' x y = (if (min x y, max x y) \<in> {(x, y). 0 \<le> x \<and> x < y \<and> y < ?n}
                         then cell this y x else cell this x y)"
    using s by (simp_all add: swapped_state_def)
  have "cell cur' x y = cell this y x"
    if v: "0 \<le> x \<and> x < ?n \<and> 0 \<le> y \<and> y < m_cols this" for x y
  proof (cases "x = y")
    case True
    then show ?thesis using st [of x y] v sq by simp
  next
    case False
    then have "(min x y, max x y) \<in> {(x, y). 0 \<le> x \<and> x < y \<and> y < ?n}"
      using v sq by (auto simp: min_def max_def)
    then show ?thesis using st [of x y] v sq by simp
  qed
  then show ?thesis using t w sq by auto
qed

lemma transpose_agrees_with_transposed:
  assumes "wf this" "is_square this" "0 < block_size T" "m_rows this + 64 \<le> INT_MAX"
    "length (m_data this) \<le> max_alloc env" "length (m_data this) \<le> elem_budget env"
  shows "\<exists>r. transpose T this = Some (Returned () r) \<and>
             transposed T env this = Some (Returned r this)"
proof -
  have sq: "m_cols this = m_rows this" using assms(2) by (simp add: is_square_def)
  obtain cur' where t: "transpose T this = Some (Returned () cur')" and w: "wf cur'"
    "m_rows cur' = m_rows this" "m_cols cur' = m_cols this"
    and c1: "\<And>x y. 0 \<le> x \<and> x < m_rows this \<and> 0 \<le> y \<and> y < m_cols this \<Longrightarrow>
              cell cur' x y = cell this y x"
    using transpose_correct [OF assms(1-4)] by blast
  have small: "m_cols this + 64 \<le> INT_MAX" using assms(4) sq by simp
  obtain r where q: "transposed T env this = Some (Returned r this)" and wr: "wf r"
    "m_rows r = m_cols this" "m_cols r = m_rows this"
    and c2: "\<And>x y. 0 \<le> x \<and> x < m_rows this \<and> 0 \<le> y \<and> y < m_cols this \<Longrightarrow>
              cell r y x = cell this x y"
    using transposed_correct [OF assms(1,3,4) small assms(5,6)] by blast
  have "cur' = r"
  proof (rule wf_cells_eq)
    show "wf cur'" "wf r" by (rule w(1), rule wr(1))
    show "m_rows cur' = m_rows r" "m_cols cur' = m_cols r" using w wr sq by simp_all
    fix x y assume "0 \<le> x" "x < m_rows cur'" "0 \<le> y" "y < m_cols cur'"
    then have v: "0 \<le> x \<and> x < m_rows this \<and> 0 \<le> y \<and> y < m_cols this"
      and v': "0 \<le> y \<and> y < m_rows this \<and> 0 \<le> x \<and> x < m_cols this"
      using w sq by simp_all
    show "cell cur' x y = cell r x y" using c1 [OF v] c2 [OF v'] by simp
  qed
  then show ?thesis using t q by blast
qed

lemma transpose_raises_iff:
  "(\<exists>msg s. transpose T this = Some (Raised (InvalidArgument msg) s)) \<longleftrightarrow> \<not> is_square this"
proof
  assume "\<exists>msg s. transpose T this = Some (Raised (InvalidArgument msg) s)"
  then obtain msg s where "transpose T this = Some (Raised (InvalidArgument msg) s)" by blast
  then show "\<not> is_square this"
    using transpose_shape [of T this "Raised (InvalidArgument msg) s"] by simp
next
  assume "\<not> is_square this"
  then show "\<exists>msg s. transpose T this = Some (Raised (InvalidArgument msg) s)"
    by (simp add: transpose_def)
qed

lemma transpose_raises_unchanged:
  "transpose T this = Some (Raised e s) \<Longrightarrow> s = this"
  using transpose_shape [of T this "Raised e s"] by simp


lemma wf_square_small:
  assumes "wf this" "is_square this"
  shows "m_rows this + 64 \<le> INT_MAX"
proof (rule ccontr)
  assume "\<not> m_rows this + 64 \<le> INT_MAX"
  then have big: "65536 \<le> m_rows this" by (simp add: INT_MAX_def)
  then have "65536 * 65536 \<le> m_rows this * m_rows this"
    by (intro mult_mono) simp_all
  moreover have "m_rows this * m_rows this < int UINT_MOD"
    using assms by (simp add: wf_def is_square_def)
  ultimately show False by (simp add: UINT_MOD_def)
qed

lemma transpose_square:
  assumes "wf this" "is_square this" "0 < block_size T"
    "length (m_data this) \<le> max_alloc env" "length (m_data this) \<le> elem_budget env"
  shows "\<exists>r. transpose T this = Some (Returned () r) \<and>
             transposed T env this = Some (Returned r this) \<and>
             m_rows r = m_rows this \<and> m_cols r = m_cols this \<and>
             (\<forall>x y. 0 \<le> x \<and> x < m_rows this \<and> 0 \<le> y \<and> y < m_cols this \<longrightarrow>
                op_call r x y = op_call this y x)"
proof -
  have small: "m_rows this + 64 \<le> INT_MAX" using assms(1,2) by (rule wf_square_small)
  have sq: "m_cols this = m_rows this" using assms(2) by (simp add: is_square_def)
  obtain r where t: "transpose T this = Some (Returned () r)"
    and q: "transposed T env this = Some (Returned r this)"
    using transpose_agrees_with_transposed [OF assms(1-3) small assms(4,5)] by blast
  obtain cur' where t': "transpose T this = Some (Returned () cur')" and w: "wf cur'"
    "m_rows cur' = m_rows this" "m_cols cur' = m_cols this"
    and c1: "\<And>x y. 0 \<le> x \<and> x < m_rows this \<and> 0 \<le> y \<and> y < m_cols this \<Longrightarrow>
              cell cur' x y = cell this y x"
    using transpose_correct [OF assms(1-3) small] by blast
  have eq: "cur' = r" using t t' by simp
  have "op_call r x y = op_call this y x"
    if v: "0 \<le> x \<and> x < m_rows this \<and> 0 \<le> y \<and> y < m_cols this" for x y
  proof -
    have "op_call r x y = Some (cell r x y)"
      using w v eq by (intro op_call_cell) simp_all
    moreover have "op_call this y x = Some (cell this y x)"
      using assms(1) v sq by (intro op_call_cell) simp_all
    ultimately show ?thesis using c1 [OF v] eq by simp
  qed
  then show ?thesis using t q w eq by blast
qed

lemma transposed_any_shape:
  assumes "wf this" "0 < block_size T"
    "m_rows this + 64 \<le> INT_MAX" "m_cols this + 64 \<le> INT_MAX"
    "length (m_data this) \<le> max_alloc env" "length (m_data this) \<le> elem_budget env"
  shows "\<exists>r. transposed T env this = Some (Returned r this) \<and>
             rows r = cols this \<and> cols r = rows this \<and>
             (\<forall>x y. 0 \<le> x \<and> x < rows this \<and> 0 \<le> y \<and> y < cols this \<longrightarrow>
                op_call r y x = op_call this x y) \<and>
             transposed T env r = Some (Returned this r)"
proof -
  obtain r where r: "transposed T env this = Some (Returned r this)"
    and rt: "transposed T env r = Some (Returned this r)"
    using transposed_round_trip [OF assms] by blast
  obtain r' where r': "transposed T env this = Some (Returned r' this)"
    "wf r'" "m_rows r' = m_cols this" "m_cols r' = m_rows this"
    and c: "\<And>x y. 0 \<le> x \<and> x < m_rows this \<and> 0 \<le> y \<and> y < m_cols this \<Longrightarrow>
              cell r' y x = cell this x y"
    using transposed_correct [OF assms] by blast
  have eq: "r' = r" using r r'(1) by simp
  have "op_call r y x = op_call this x y"
    if v: "0 \<le> x \<and> x < rows this \<and> 0 \<le> y \<and> y < cols this" for x y
  proof -
    have v': "0 \<le> x \<and> x < m_rows this \<and> 0 \<le> y \<and> y < m_cols this"
      using v by (simp add: rows_def cols_def)
    have "op_call r y x = Some (cell r y x)"
      using r'(2-4) v' eq by (intro op_call_cell) simp_all
    moreover have "op_call this x y = Some (cell this x y)"
      using assms(1) v' by (intro op_call_cell) simp_all
    ultimately show ?thesis using c [OF v'] eq by simp
  qed
  then show ?thesis using r rt r'(3,4) eq by (auto simp: rows_def cols_def)
qed

end
